theory Spec2Isabelle
  imports Complex_Main "HOL-Library.Word" "HOL-Library.Sublist" "HOL-Library.Multiset"
    "HOL-Library.Signed_Division"
begin

section \<open>ColorFormat: ANSI text styling\<close>

text \<open>
  A shallow embedding of \<^verbatim>\<open>ColorFormat.cpp\<close>. A \<^verbatim>\<open>std::string\<close> is a \<^typ>\<open>string\<close>
  (a list of bytes), \<^verbatim>\<open>unsigned int\<close> is a \<^typ>\<open>32 word\<close>, and a thrown
  \<^verbatim>\<open>std::invalid_argument\<close> is the left injection of a sum, carrying the bytes of
  \<^verbatim>\<open>what()\<close>.
\<close>

subsection \<open>Strings, errors and the token tables\<close>

type_synonym unsigned_int = "32 word"

text \<open>
  What a caller reads of a thrown \<^verbatim>\<open>std::invalid_argument\<close> is \<^verbatim>\<open>what()\<close>, a C string:
  the bytes of the message the exception was built from, up to the first NUL byte.
\<close>

datatype error = InvalidArgument string

definition c_str :: "string \<Rightarrow> string" where
  "c_str s = takeWhile (\<lambda>c. c \<noteq> CHR 0x00) s"

definition invalid_argument :: "string \<Rightarrow> error" where
  "invalid_argument what_arg = InvalidArgument (c_str what_arg)"

abbreviation ESC :: char where
  "ESC \<equiv> CHR 0x1B"

text \<open>The cross mark that opens every message: the three bytes of its UTF-8 form.\<close>

definition cross_mark :: string where
  "cross_mark = [CHR 0xE2, CHR 0x9D, CHR 0x8C]"

text \<open>The escape that ends every formatted string, \<^verbatim>\<open>"\033[0m"\<close>.\<close>

definition reset :: string where
  "reset = ESC # ''[0m''"

text \<open>\<^verbatim>\<open>ColorFormat::_colors\<close>: eight names and their escape codes.\<close>

definition colors :: "(string \<times> string) list" where
  "colors =
    [(''red'', ESC # ''[31m''), (''green'', ESC # ''[32m''),
     (''yellow'', ESC # ''[33m''), (''blue'', ESC # ''[34m''),
     (''magenta'', ESC # ''[35m''), (''cyan'', ESC # ''[36m''),
     (''white'', ESC # ''[37m''), (''black'', ESC # ''[30m'')]"

text \<open>\<^verbatim>\<open>ColorFormat::_styles\<close>: five names and their escape codes.\<close>

definition styles :: "(string \<times> string) list" where
  "styles =
    [(''bold'', ESC # ''[1m''),
     (''underline'', ESC # ''[4m''),
     (''italic'', ESC # ''[3m''),
     (''strikethrough'', ESC # ''[9m''),
     (''blink'', ESC # ''[5m'')]"

text \<open>
  The inner loops \<^verbatim>\<open>for (j ...) if (parameters[i] == table[j][0]) { ...; break; }\<close>:
  the first row whose name is the token, if there is one.
\<close>

fun find_name :: "string \<Rightarrow> (string \<times> string) list \<Rightarrow> nat option" where
  "find_name p [] = None"
| "find_name p (row # rows) =
    (if p = fst row then Some 0 else map_option Suc (find_name p rows))"

subsection \<open>removePreviousFormats\<close>

text \<open>\<^verbatim>\<open>s.find(pat)\<close>: the first position where \<open>pat\<close> occurs in \<open>s\<close>.\<close>

fun find_str :: "string \<Rightarrow> string \<Rightarrow> nat option" where
  "find_str pat [] = (if pat = [] then Some 0 else None)"
| "find_str pat (c # cs) =
    (if take (length pat) (c # cs) = pat then Some 0
     else map_option Suc (find_str pat cs))"

fun find_chr :: "char \<Rightarrow> string \<Rightarrow> nat option" where
  "find_chr c [] = None"
| "find_chr c (x # xs) = (if x = c then Some 0 else map_option Suc (find_chr c xs))"

text \<open>\<^verbatim>\<open>s.find(c, pos)\<close>: the first position at or after \<open>pos\<close> that holds \<open>c\<close>.\<close>

definition find_chr_from :: "char \<Rightarrow> string \<Rightarrow> nat \<Rightarrow> nat option" where
  "find_chr_from c s pos = map_option (\<lambda>k. pos + k) (find_chr c (drop pos s))"

text \<open>\<^verbatim>\<open>s.erase(pos, n)\<close>, for \<open>pos\<close> within the string (the only use made of it).\<close>

definition erase :: "string \<Rightarrow> nat \<Rightarrow> nat \<Rightarrow> string" where
  "erase s pos n = take pos s @ drop (pos + n) s"

lemma find_chr_bound: "find_chr c s = Some k \<Longrightarrow> k < length s"
  by (induction s arbitrary: k) (auto split: if_splits)

lemma find_chr_from_bounds:
  "find_chr_from c s pos = Some e \<Longrightarrow> pos \<le> e \<and> e < length s"
  by (auto simp: find_chr_from_def dest!: find_chr_bound)

text \<open>
  The loop of \<^verbatim>\<open>removePreviousFormats\<close>: find the first \<^verbatim>\<open>"\033["\<close>, find the first
  \<^verbatim>\<open>'m'\<close> from there, erase the span between them (both ends included) and start
  again; stop when there is no start marker, or none is terminated.
\<close>

function removePreviousFormats :: "string \<Rightarrow> string" where
  "removePreviousFormats s =
    (case find_str (ESC # ''['') s of
       None \<Rightarrow> s
     | Some start \<Rightarrow>
        (case find_chr_from CHR ''m'' s start of
           None \<Rightarrow> s
         | Some e \<Rightarrow> removePreviousFormats (erase s start (e - start + 1))))"
  by pat_completeness auto
termination
proof (relation "measure length")
  show "wf (measure length)" by simp
next
  fix s :: string and start e :: nat
  assume "find_chr_from CHR ''m'' s start = Some e"
  then have "start \<le> e \<and> e < length s" by (rule find_chr_from_bounds)
  then show "(erase s start (e - start + 1), s) \<in> measure length"
    by (simp add: erase_def; arith)
qed

declare removePreviousFormats.simps [simp del]

subsection \<open>formatString\<close>

text \<open>The locals of \<^verbatim>\<open>formatString\<close> that its token loop updates.\<close>

record format_state =
  color :: string
  formats :: string
  activeStyles :: "bool list"

definition multiple_colors_message :: string where
  "multiple_colors_message = cross_mark @ '' Multiple colors detected. Only one is allowed.''"

definition duplicate_style_message :: "string \<Rightarrow> string" where
  "duplicate_style_message p = cross_mark @ '' Duplicate style detected: '' @ p @ ''.''"

definition unknown_format_message :: "string \<Rightarrow> string" where
  "unknown_format_message p = cross_mark @ '' Unknown format detected: '' @ p"

text \<open>The body of the loop over \<^verbatim>\<open>parameters[i]\<close>, for one token.\<close>

definition apply_parameter :: "string \<Rightarrow> format_state \<Rightarrow> error + format_state" where
  "apply_parameter p st =
    (if p = [] then Inr st
     else case find_name p colors of
       Some j \<Rightarrow>
         (if color st \<noteq> [] then Inl (invalid_argument multiple_colors_message)
          else Inr (st\<lparr>color := snd (colors ! j)\<rparr>))
     | None \<Rightarrow>
         (case find_name p styles of
            Some j \<Rightarrow>
              (if activeStyles st ! j
               then Inl (invalid_argument (duplicate_style_message p))
               else Inr (st\<lparr>formats := formats st @ snd (styles ! j),
                             activeStyles := (activeStyles st)[j := True]\<rparr>))
          | None \<Rightarrow> Inl (invalid_argument (unknown_format_message p))))"

fun apply_parameters :: "string list \<Rightarrow> format_state \<Rightarrow> error + format_state" where
  "apply_parameters [] st = Inr st"
| "apply_parameters (p # ps) st =
    (case apply_parameter p st of
       Inl err \<Rightarrow> Inl err
     | Inr st' \<Rightarrow> apply_parameters ps st')"

definition initial_state :: format_state where
  "initial_state = \<lparr>color = [], formats = [], activeStyles = replicate 5 False\<rparr>"

definition formatString ::
  "string \<Rightarrow> string \<Rightarrow> string \<Rightarrow> string \<Rightarrow> string \<Rightarrow> string \<Rightarrow> string \<Rightarrow> error + string" where
  "formatString str firstFormat secondFormat thirdFormat fourthFormat fifthFormat sixthFormat =
    (if str = [] then Inr []
     else case apply_parameters
         [firstFormat, secondFormat, thirdFormat, fourthFormat, fifthFormat, sixthFormat]
         initial_state of
       Inl err \<Rightarrow> Inl err
     | Inr st \<Rightarrow>
         Inr (color st @ formats st
              @ (if color st \<noteq> [] \<or> formats st \<noteq> [] then removePreviousFormats str else str)
              @ reset))"

subsection \<open>formatUnsignedInteger\<close>

text \<open>\<^verbatim>\<open>static_cast<char>('0' + number % 10)\<close>.\<close>

definition digit_char :: "unsigned_int \<Rightarrow> char" where
  "digit_char d = char_of (of_char CHR ''0'' + unat d)"

text \<open>
  The test at the head of the \<^verbatim>\<open>do\<close> body: a comma goes in front of the text built
  so far when that text is not empty and the number of its digits (its size less the
  commas counted so far, which never exceed it) is a multiple of three.
\<close>

definition insert_separator :: "string \<Rightarrow> nat \<Rightarrow> string \<times> nat" where
  "insert_separator formattedUnsignedInteger commaCount =
    (if formattedUnsignedInteger \<noteq> [] \<and> (length formattedUnsignedInteger - commaCount) mod 3 = 0
     then (CHR '','' # formattedUnsignedInteger, commaCount + 1)
     else (formattedUnsignedInteger, commaCount))"

lemma unat_div_10_less: "number div 10 \<noteq> 0 \<Longrightarrow> unat (number div 10) < unat (number :: unsigned_int)"
proof -
  assume "number div 10 \<noteq> 0"
  then have "unat (number div 10) \<noteq> 0" by (simp add: unat_eq_0)
  then have "unat number div 10 \<noteq> 0" by (simp add: unat_div)
  then have "unat number div 10 < unat number" by simp
  then show ?thesis by (simp add: unat_div)
qed

text \<open>The \<^verbatim>\<open>do { ... } while (number)\<close> loop: one digit is put in front each time.\<close>

function group_digits :: "unsigned_int \<Rightarrow> string \<Rightarrow> nat \<Rightarrow> string" where
  "group_digits number formattedUnsignedInteger commaCount =
    (case insert_separator formattedUnsignedInteger commaCount of
       (separated, commaCount') \<Rightarrow>
         (if number div 10 \<noteq> 0
          then group_digits (number div 10) (digit_char (number mod 10) # separated) commaCount'
          else digit_char (number mod 10) # separated))"
  by pat_completeness auto
termination
  by (relation "measure (\<lambda>(number, formattedUnsignedInteger, commaCount). unat number)")
    (auto simp: unat_div_10_less)

declare group_digits.simps [simp del]

definition formatUnsignedInteger ::
  "unsigned_int \<Rightarrow> string \<Rightarrow> string \<Rightarrow> string \<Rightarrow> string \<Rightarrow> string \<Rightarrow> string \<Rightarrow> error + string" where
  "formatUnsignedInteger number firstFormat secondFormat thirdFormat fourthFormat fifthFormat
      sixthFormat =
    formatString (group_digits number [] 0)
      firstFormat secondFormat thirdFormat fourthFormat fifthFormat sixthFormat"

subsection \<open>Double precision arithmetic\<close>

text \<open>
  The gradient is computed in \<^verbatim>\<open>double\<close>. A finite double is a rational number, and
  each operation of IEEE 754 binary64 returns the exact result rounded to the nearest
  double, ties to the even significand. \<open>binade x\<close> is the exponent \<open>e\<close> with
  \<open>2\<^sup>e \<le> x < 2\<^sup>e\<^sup>+\<^sup>1\<close> for a positive \<open>x\<close>; a double has 53 significant bits, and
  below \<open>2\<^sup>-\<^sup>1\<^sup>0\<^sup>2\<^sup>2\<close> the spacing stays \<open>2\<^sup>-\<^sup>1\<^sup>0\<^sup>7\<^sup>4\<close>. Overflow is left out: every
  value that arises below lies between 0 and 255.
\<close>

type_synonym double = rat

definition round_to_even :: "rat \<Rightarrow> int" where
  "round_to_even x =
    (let f = \<lfloor>x\<rfloor>; d = x - of_int f
     in if d < 1 / 2 then f else if 1 / 2 < d then f + 1 else if even f then f else f + 1)"

text \<open>The number of binary digits of a positive integer (0 for the others).\<close>

function bit_length :: "int \<Rightarrow> int" where
  "bit_length a = (if 0 < a then bit_length (a div 2) + 1 else 0)"
  by pat_completeness auto
termination
  by (relation "measure nat") auto

declare bit_length.simps [simp del]

definition binade :: "rat \<Rightarrow> int" where
  "binade x =
    (case quotient_of x of
       (a, b) \<Rightarrow>
         (let k = bit_length a - bit_length b
          in if x < 2 powi k then k - 1 else k))"

definition to_double :: "rat \<Rightarrow> double" where
  "to_double x =
    (if x = 0 then 0
     else let e = max (binade \<bar>x\<bar> - 52) (- 1074)
          in sgn x * of_int (round_to_even (\<bar>x\<bar> / 2 powi e)) * 2 powi e)"

definition double_div :: "double \<Rightarrow> double \<Rightarrow> double" where
  "double_div x y = to_double (x / y)"

definition double_mul :: "double \<Rightarrow> double \<Rightarrow> double" where
  "double_mul x y = to_double (x * y)"

definition double_sub :: "double \<Rightarrow> double \<Rightarrow> double" where
  "double_sub x y = to_double (x - y)"

text \<open>\<^verbatim>\<open>(double)n\<close> for an \<^verbatim>\<open>unsigned int\<close>: exact, since \<open>n < 2\<^sup>3\<^sup>2\<close>.\<close>

definition double_of_uint :: "unsigned_int \<Rightarrow> double" where
  "double_of_uint n = of_int (uint n)"

text \<open>\<^verbatim>\<open>(int)x\<close>: the fraction is dropped (the values cast below fit an \<^verbatim>\<open>int\<close>).\<close>

definition int_of_double :: "double \<Rightarrow> int" where
  "int_of_double x = (if 0 \<le> x then \<lfloor>x\<rfloor> else \<lceil>x\<rceil>)"

subsection \<open>formatGradientUnsignedInteger\<close>

text \<open>What \<^verbatim>\<open>operator<<\<close> writes for an \<^verbatim>\<open>int\<close>: its decimal digits.\<close>

function decimal_digits :: "int \<Rightarrow> string" where
  "decimal_digits i =
    (if i < 10 then [char_of (48 + i)]
     else decimal_digits (i div 10) @ [char_of (48 + i mod 10)])"
  by pat_completeness auto
termination
  by (relation "measure nat") auto

declare decimal_digits.simps [simp del]

definition decimal :: "int \<Rightarrow> string" where
  "decimal i = (if i < 0 then CHR ''-'' # decimal_digits (- i) else decimal_digits i)"

definition gradient_message :: string where
  "gradient_message = cross_mark @ '' No color is aurotized with the gradiation function.''"

text \<open>The first loop: some non-empty parameter is the name of a color.\<close>

definition color_given :: "string list \<Rightarrow> bool" where
  "color_given parameters = list_ex (\<lambda>p. p \<noteq> [] \<and> find_name p colors \<noteq> None) parameters"

definition too_low :: "unsigned_int \<Rightarrow> unsigned_int \<Rightarrow> unsigned_int \<Rightarrow> bool" where
  "too_low number minimum maximum =
    ((number < minimum \<and> minimum < maximum) \<or>
     (number > minimum \<and> minimum > maximum) \<or>
     (number \<noteq> maximum \<and> minimum = maximum))"

definition too_high :: "unsigned_int \<Rightarrow> unsigned_int \<Rightarrow> unsigned_int \<Rightarrow> bool" where
  "too_high number minimum maximum =
    ((number > maximum \<and> maximum > minimum) \<or>
     (number < maximum \<and> maximum < minimum))"

definition gradient_ratio :: "unsigned_int \<Rightarrow> unsigned_int \<Rightarrow> unsigned_int \<Rightarrow> double" where
  "gradient_ratio number minimum maximum =
    (let reversed = minimum > maximum;
         progress = (if reversed then double_of_uint (number - maximum)
                     else double_of_uint (number - minimum));
         field = (if reversed then double_of_uint (minimum - maximum)
                  else double_of_uint (maximum - minimum));
         ratio = (if field \<noteq> 0 then double_div progress field else 1);
         ratio = (if ratio < 0 then 0 else ratio);
         ratio = (if ratio > 1 then 1 else ratio)
     in if reversed then double_sub 1 ratio else ratio)"

definition gradient_red :: "double \<Rightarrow> int" where
  "gradient_red ratio =
    (if ratio < 1 / 2 then 255
     else int_of_double (double_mul 255 (double_sub 1 (double_mul (double_sub ratio (1 / 2)) 2))))"

definition gradient_green :: "double \<Rightarrow> int" where
  "gradient_green ratio =
    (if ratio < 1 / 2 then int_of_double (double_mul (double_mul 255 ratio) 2) else 255)"

definition cube_index :: "int \<Rightarrow> int \<Rightarrow> int \<Rightarrow> int" where
  "cube_index red green blue = 16 + (red sdiv 51) * 36 + (green sdiv 51) * 6 + (blue sdiv 51)"

definition gradient_index :: "unsigned_int \<Rightarrow> unsigned_int \<Rightarrow> unsigned_int \<Rightarrow> int" where
  "gradient_index number minimum maximum =
    (let ratio = gradient_ratio number minimum maximum
     in cube_index (gradient_red ratio) (gradient_green ratio) 0)"

definition formatGradientUnsignedInteger ::
  "unsigned_int \<Rightarrow> unsigned_int \<Rightarrow> unsigned_int \<Rightarrow> string \<Rightarrow> string \<Rightarrow> string \<Rightarrow> string \<Rightarrow> string \<Rightarrow> error + string" where
  "formatGradientUnsignedInteger number minimum maximum
      firstFormat secondFormat thirdFormat fourthFormat fifthFormat =
    (if color_given [firstFormat, secondFormat, thirdFormat, fourthFormat, fifthFormat]
     then Inl (invalid_argument gradient_message)
     else if too_low number minimum maximum
     then formatUnsignedInteger number ''red'' ''blink'' ''bold'' [] [] []
     else if too_high number minimum maximum
     then formatUnsignedInteger number ''green'' ''blink'' ''bold'' [] [] []
     else case formatUnsignedInteger number
         firstFormat secondFormat thirdFormat fourthFormat fifthFormat [] of
       Inl err \<Rightarrow> Inl err
     | Inr formatted \<Rightarrow>
         Inr (ESC # ''[38;5;'' @ decimal (gradient_index number minimum maximum) @ ''m''
              @ formatted @ reset))"

subsection \<open>rainbow\<close>

definition too_many_message :: string where
  "too_many_message = cross_mark @ '' Too many text arguments for rainbow().''"

text \<open>The rainbow emoji returned when no text is given: four bytes in UTF-8.\<close>

definition rainbow_symbol :: string where
  "rainbow_symbol = [CHR 0xF0, CHR 0x9F, CHR 0x8C, CHR 0x88]"

text \<open>
  The loop over \<^verbatim>\<open>arguments[i]\<close>: it stops at the first empty argument; a style adds
  its code to \<^verbatim>\<open>format\<close>; anything else is the text, which may be given once.
\<close>

fun rainbow_arguments :: "string list \<Rightarrow> string \<Rightarrow> string \<Rightarrow> error + string \<times> string" where
  "rainbow_arguments [] str fmt = Inr (str, fmt)"
| "rainbow_arguments (a # arguments) str fmt =
    (if a = [] then Inr (str, fmt)
     else case find_name a styles of
       Some j \<Rightarrow> rainbow_arguments arguments str (fmt @ snd (styles ! j))
     | None \<Rightarrow>
         (if str = [] then rainbow_arguments arguments a fmt
          else Inl (invalid_argument too_many_message)))"

definition palette :: "string list" where
  "palette =
    [ESC # ''[31m'', ESC # ''[32m'', ESC # ''[33m'', ESC # ''[34m'', ESC # ''[35m'',
     ESC # ''[36m'']"

text \<open>
  One round of the shuffle. \<open>rand i\<close> is what the \<open>i\<close>-th call of \<^verbatim>\<open>std::rand()\<close>
  made by this invocation returns (never negative). The pair holds the arrays
  \<^verbatim>\<open>colors\<close> and \<^verbatim>\<open>randomColors\<close>.
\<close>

definition shuffle_step ::
  "(nat \<Rightarrow> nat) \<Rightarrow> nat \<Rightarrow> string list \<times> string list \<Rightarrow> string list \<times> string list" where
  "shuffle_step rand i = (\<lambda>(cs, randomColors).
    (let randomIndex = rand i mod (6 - i mod 6)
     in (cs[randomIndex := cs ! (5 - i)], randomColors[i := cs ! randomIndex])))"

definition shuffle :: "(nat \<Rightarrow> nat) \<Rightarrow> string list" where
  "shuffle rand = snd (fold (shuffle_step rand) [0..<6] (palette, replicate 8 []))"

text \<open>
  The inner \<^verbatim>\<open>while (i < string.size() && string[i] != 'm')\<close>: where it stops.
\<close>

definition skip_escape :: "string \<Rightarrow> nat \<Rightarrow> nat" where
  "skip_escape s i = (case find_chr_from CHR ''m'' s i of None \<Rightarrow> length s | Some j \<Rightarrow> j)"

lemma skip_escape_ge: "i < length s \<Longrightarrow> i \<le> skip_escape s i"
  by (auto simp: skip_escape_def dest: find_chr_from_bounds split: option.splits)

text \<open>
  The loop over the characters: an escape sequence is copied up to its \<^verbatim>\<open>'m'\<close>, any
  other character gets the color of its index modulo 6 in front.
\<close>

function rainbow_loop :: "string list \<Rightarrow> string \<Rightarrow> nat \<Rightarrow> string \<Rightarrow> string" where
  "rainbow_loop randomColors s i rainbowString =
    (if i < length s
     then (if s ! i = ESC \<and> i + 1 < length s \<and> s ! (i + 1) = CHR ''[''
           then rainbow_loop randomColors s (skip_escape s i + 1)
                  (rainbowString @ take (skip_escape s i - i) (drop i s) @ ''m'')
           else rainbow_loop randomColors s (i + 1)
                  (rainbowString @ randomColors ! (i mod 6) @ [s ! i]))
     else rainbowString)"
  by pat_completeness auto
termination
proof (relation "measure (\<lambda>(randomColors, s, i, rainbowString). length s - i)")
  show "wf (measure (\<lambda>(randomColors, s, i, rainbowString). length s - i))" by simp
next
  fix randomColors :: "string list" and s rainbowString :: string and i :: nat
  assume "i < length s"
  then have "i \<le> skip_escape s i" by (rule skip_escape_ge)
  with \<open>i < length s\<close>
  show "((randomColors, s, skip_escape s i + 1,
          rainbowString @ take (skip_escape s i - i) (drop i s) @ ''m''),
         randomColors, s, i, rainbowString)
        \<in> measure (\<lambda>(randomColors, s, i, rainbowString). length s - i)"
    by simp
next
  fix randomColors :: "string list" and s rainbowString :: string and i :: nat
  assume "i < length s"
  then show "((randomColors, s, i + 1, rainbowString @ randomColors ! (i mod 6) @ [s ! i]),
         randomColors, s, i, rainbowString)
        \<in> measure (\<lambda>(randomColors, s, i, rainbowString). length s - i)"
    by simp
qed

declare rainbow_loop.simps [simp del]

definition rainbow ::
  "(nat \<Rightarrow> nat) \<Rightarrow> string \<Rightarrow> string \<Rightarrow> string \<Rightarrow> string \<Rightarrow> string \<Rightarrow> error + string" where
  "rainbow rand firstArgument secondArgument thirdArgument fourthArgument fifthArgument =
    (case rainbow_arguments
        [firstArgument, secondArgument, thirdArgument, fourthArgument, fifthArgument] [] [] of
       Inl err \<Rightarrow> Inl err
     | Inr (str, fmt) \<Rightarrow>
         (if str = [] then Inr rainbow_symbol
          else Inr (fmt @ rainbow_loop (shuffle rand) (removePreviousFormats str) 0 [] @ reset)))"

section \<open>The vocabulary of the properties\<close>

text \<open>A token is a color or a style when it is a name of the table.\<close>

definition is_color :: "string \<Rightarrow> bool" where
  "is_color p = (p \<in> fst ` set colors)"

definition is_style :: "string \<Rightarrow> bool" where
  "is_style p = (p \<in> fst ` set styles)"

text \<open>
  The three ways in which the token at position \<open>i\<close> of a token list is refused: it is a
  color and a color stands before it; it is a style and the same token stands before it;
  it is not empty and in neither table.
\<close>

definition second_color :: "string list \<Rightarrow> nat \<Rightarrow> bool" where
  "second_color ps i = (is_color (ps ! i) \<and> (\<exists>j<i. is_color (ps ! j)))"

definition repeated_style :: "string list \<Rightarrow> nat \<Rightarrow> bool" where
  "repeated_style ps i = (is_style (ps ! i) \<and> (\<exists>j<i. ps ! j = ps ! i))"

definition unknown_token :: "string list \<Rightarrow> nat \<Rightarrow> bool" where
  "unknown_token ps i = (ps ! i \<noteq> [] \<and> \<not> is_color (ps ! i) \<and> \<not> is_style (ps ! i))"

definition offending :: "string list \<Rightarrow> nat \<Rightarrow> bool" where
  "offending ps i = (second_color ps i \<or> repeated_style ps i \<or> unknown_token ps i)"

text \<open>
  The message each of the three \<^verbatim>\<open>throw\<close> statements builds the exception from.
\<close>

definition error_message :: "string list \<Rightarrow> nat \<Rightarrow> string" where
  "error_message ps i =
    (if second_color ps i then multiple_colors_message
     else if repeated_style ps i then duplicate_style_message (ps ! i)
     else unknown_format_message (ps ! i))"

text \<open>
  What the caller reads of it: the same bytes, but an unknown token only up to its first
  NUL byte (the fixed texts and the names of the styles hold none).
\<close>

definition reported_message :: "string list \<Rightarrow> nat \<Rightarrow> string" where
  "reported_message ps i =
    (if second_color ps i then multiple_colors_message
     else if repeated_style ps i then duplicate_style_message (ps ! i)
     else unknown_format_message (c_str (ps ! i)))"

text \<open>
  The same for a token \<open>p\<close> and the tokens \<open>pre\<close> read before it, and what the locals
  of the loop record about \<open>pre\<close>.
\<close>

definition bad :: "string list \<Rightarrow> string \<Rightarrow> bool" where
  "bad pre p =
    (p \<noteq> [] \<and> ((is_color p \<and> (\<exists>q\<in>set pre. is_color q)) \<or> (is_style p \<and> p \<in> set pre)
       \<or> (\<not> is_color p \<and> \<not> is_style p)))"

definition bad_message :: "string list \<Rightarrow> string \<Rightarrow> string" where
  "bad_message pre p =
    (if is_color p then multiple_colors_message
     else if is_style p then duplicate_style_message p
     else unknown_format_message p)"

definition seen_inv :: "string list \<Rightarrow> format_state \<Rightarrow> bool" where
  "seen_inv pre st =
    ((color st \<noteq> []) = (\<exists>q\<in>set pre. is_color q) \<and>
     length (activeStyles st) = 5 \<and>
     (\<forall>j<5. activeStyles st ! j = (fst (styles ! j) \<in> set pre)))"

definition first_bad_at :: "string list \<Rightarrow> string list \<Rightarrow> error \<Rightarrow> nat \<Rightarrow> bool" where
  "first_bad_at pre ps err i =
    (bad (pre @ take i ps) (ps ! i) \<and> (\<forall>j<i. \<not> bad (pre @ take j ps) (ps ! j)) \<and>
     err = invalid_argument (bad_message (pre @ take i ps) (ps ! i)))"

text \<open>
  The rendering the contract of the integer formatter describes, on its own: the base 10
  digits of \<open>n\<close>, least significant first; a comma after every third digit that has a
  more significant digit after it; the whole read from the most significant end.
\<close>

fun base10 :: "nat \<Rightarrow> nat list" where
  "base10 n = (if n < 10 then [n] else n mod 10 # base10 (n div 10))"

declare base10.simps [simp del]

fun group3 :: "string \<Rightarrow> string" where
  "group3 (a # b # c # d # ds) = a # b # c # CHR '','' # group3 (d # ds)"
| "group3 ds = ds"

definition digit_of :: "nat \<Rightarrow> char" where
  "digit_of d = char_of (48 + d)"

definition grouped_decimal :: "nat \<Rightarrow> string" where
  "grouped_decimal n = rev (group3 (map digit_of (base10 n)))"

text \<open>
  A string holds no start marker when \<^verbatim>\<open>find("\033[")\<close> finds none. An escape code is
  a start marker, a body without \<^verbatim>\<open>'m'\<close>, and the \<^verbatim>\<open>'m'\<close> that ends it.
\<close>

definition no_marker :: "string \<Rightarrow> bool" where
  "no_marker s = (find_str (ESC # ''['') s = None)"

definition escape_code :: "string \<Rightarrow> bool" where
  "escape_code c = (\<exists>body. c = ESC # CHR ''['' # body @ ''m'' \<and> CHR ''m'' \<notin> set body)"

text \<open>What the token loop keeps true of \<^verbatim>\<open>color\<close> and \<^verbatim>\<open>formats\<close>.\<close>

definition codes_inv :: "format_state \<Rightarrow> bool" where
  "codes_inv st = (\<exists>cs. color st @ formats st = concat cs \<and> (\<forall>c\<in>set cs. escape_code c))"

text \<open>
  The two fixed renderings of a value outside the range: the digit text in red or in
  green, blinking and bold.
\<close>

definition too_low_rendering :: "unsigned_int \<Rightarrow> string" where
  "too_low_rendering number =
    ESC # ''[31m'' @ ESC # ''[5m'' @ ESC # ''[1m'' @ grouped_decimal (unat number) @ ESC # ''[0m''"

definition too_high_rendering :: "unsigned_int \<Rightarrow> string" where
  "too_high_rendering number =
    ESC # ''[32m'' @ ESC # ''[5m'' @ ESC # ''[1m'' @ grouped_decimal (unat number) @ ESC # ''[0m''"








text \<open>
  The text argument of \<^verbatim>\<open>rainbow\<close> after stripping, with the color of slot
  \<open>i mod 6\<close> in front of its \<open>i\<close>-th character.
\<close>

definition colorized :: "string list \<Rightarrow> string \<Rightarrow> string" where
  "colorized randomColors s =
    concat (map (\<lambda>i. randomColors ! (i mod 6) @ [s ! i]) [0..<length s])"

section \<open>Properties\<close>

subsection \<open>The token loop of formatString\<close>

lemma find_name_Some: "find_name p t = Some j \<Longrightarrow> j < length t \<and> fst (t ! j) = p"
  by (induction t arbitrary: j) (auto split: if_splits)

lemma find_name_None: "(find_name p t = None) = (p \<notin> fst ` set t)"
  by (induction t) auto

lemma find_name_colors_None: "(find_name p colors = None) = (\<not> is_color p)"
  by (simp add: find_name_None is_color_def)

lemma find_name_styles_None: "(find_name p styles = None) = (\<not> is_style p)"
  by (simp add: find_name_None is_style_def)

lemma all_less_5: "(\<forall>j<5. P j) = (P 0 \<and> P 1 \<and> P 2 \<and> P 3 \<and> P (4::nat))"
proof -
  have "{j::nat. j < 5} = {0, 1, 2, 3, 4}" by auto
  then have "(\<forall>j<5. P j) = (\<forall>j\<in>{0, 1, 2, 3, 4}. P j)" by blast
  then show ?thesis by simp
qed

lemma color_code_nonempty: "j < length colors \<Longrightarrow> snd (colors ! j) \<noteq> []"
proof -
  have "\<forall>row \<in> set colors. snd row \<noteq> []" by (simp add: colors_def)
  then show "j < length colors \<Longrightarrow> snd (colors ! j) \<noteq> []" by (metis nth_mem)
qed

lemma style_names_distinct: "distinct (map fst styles)"
  by (simp add: styles_def)

lemma color_not_style: "is_color p \<Longrightarrow> \<not> is_style p"
  by (auto simp: is_color_def is_style_def colors_def styles_def)

lemma empty_not_token: "\<not> is_color []" "\<not> is_style []"
  by (auto simp: is_color_def is_style_def colors_def styles_def)

lemma style_index: "find_name p styles = Some j \<Longrightarrow> j < 5 \<and> fst (styles ! j) = p"
  using find_name_Some [of p styles j] by (simp add: styles_def)

lemma style_name_inj: "j < 5 \<Longrightarrow> k < 5 \<Longrightarrow> fst (styles ! j) = fst (styles ! k) \<Longrightarrow> j = k"
proof -
  assume jk: "j < 5" "k < 5" and eq: "fst (styles ! j) = fst (styles ! k)"
  have len: "length styles = 5" by (simp add: styles_def)
  with jk eq have "map fst styles ! j = map fst styles ! k" by simp
  with jk len show "j = k"
    using nth_eq_iff_index_eq [OF style_names_distinct, of j k] by simp
qed

lemma style_nth_is_style: "j < 5 \<Longrightarrow> is_style (fst (styles ! j))"
  by (simp add: is_style_def styles_def all_less_5 [symmetric]) (auto simp: less_Suc_eq numeral_eq_Suc)

lemma apply_parameter_error:
  assumes "seen_inv pre st"
  shows "(apply_parameter p st = Inl err) = (bad pre p \<and> err = invalid_argument (bad_message pre p))"
proof (cases "p = []")
  case True
  then show ?thesis by (simp add: apply_parameter_def bad_def)
next
  case False
  note nonempty = this
  show ?thesis
  proof (cases "find_name p colors")
    case (Some j)
    then have c: "is_color p" using find_name_colors_None [of p] by simp
    then have s: "\<not> is_style p" by (rule color_not_style)
    from assms have "(color st \<noteq> []) = (\<exists>q\<in>set pre. is_color q)" by (simp add: seen_inv_def)
    with Some c s nonempty show ?thesis
      by (auto simp: apply_parameter_def bad_def bad_message_def)
  next
    case None
    then have c: "\<not> is_color p" by (simp add: find_name_colors_None)
    show ?thesis
    proof (cases "find_name p styles")
      case None2: None
      then have "\<not> is_style p" by (simp add: find_name_styles_None)
      with None None2 c nonempty show ?thesis
        by (auto simp: apply_parameter_def bad_def bad_message_def)
    next
      case (Some j)
      then have j: "j < 5" "fst (styles ! j) = p" using style_index by auto
      then have s: "is_style p" using style_nth_is_style by auto
      from assms j have "activeStyles st ! j = (p \<in> set pre)" by (auto simp: seen_inv_def)
      with None Some c s nonempty show ?thesis
        by (auto simp: apply_parameter_def bad_def bad_message_def)
    qed
  qed
qed

lemma apply_parameter_inv:
  assumes "seen_inv pre st" and "apply_parameter p st = Inr st'"
  shows "seen_inv (pre @ [p]) st'"
proof (cases "p = []")
  case True
  with assms have "st' = st" by (simp add: apply_parameter_def)
  moreover have "\<And>j. j < 5 \<Longrightarrow> fst (styles ! j) \<noteq> []"
    using empty_not_token(2) style_nth_is_style by metis
  ultimately show ?thesis
    using assms(1) True empty_not_token(1) by (auto simp: seen_inv_def)
next
  case False
  note nonempty = this
  show ?thesis
  proof (cases "find_name p colors")
    case (Some j)
    then have c: "is_color p" using find_name_colors_None [of p] by simp
    then have s: "\<not> is_style p" by (rule color_not_style)
    from Some have "j < length colors" using find_name_Some by blast
    then have ne: "snd (colors ! j) \<noteq> []" by (rule color_code_nonempty)
    from assms(2) Some nonempty have st': "st' = st\<lparr>color := snd (colors ! j)\<rparr>"
      by (auto simp: apply_parameter_def split: if_splits)
    from assms(1) c s ne show ?thesis unfolding st'
      using style_nth_is_style by (auto simp: seen_inv_def)
  next
    case None
    then have c: "\<not> is_color p" by (simp add: find_name_colors_None)
    from assms(2) None nonempty obtain j where Some: "find_name p styles = Some j"
      by (auto simp: apply_parameter_def split: option.splits)
    then have j: "j < 5" "fst (styles ! j) = p" using style_index by auto
    from assms(2) None Some nonempty
    have st': "st' = st\<lparr>formats := formats st @ snd (styles ! j),
                         activeStyles := (activeStyles st)[j := True]\<rparr>"
      by (auto simp: apply_parameter_def split: if_splits)
    have "\<And>k. k < 5 \<Longrightarrow> (activeStyles st)[j := True] ! k = (fst (styles ! k) \<in> set (pre @ [p]))"
    proof -
      fix k :: nat
      assume k: "k < 5"
      from assms(1) have len: "length (activeStyles st) = 5"
        and old: "activeStyles st ! k = (fst (styles ! k) \<in> set pre)"
        using k by (auto simp: seen_inv_def)
      show "(activeStyles st)[j := True] ! k = (fst (styles ! k) \<in> set (pre @ [p]))"
      proof (cases "k = j")
        case True
        with j len show ?thesis by simp
      next
        case False
        with j k have "fst (styles ! k) \<noteq> p" using style_name_inj by blast
        with False old show ?thesis by simp
      qed
    qed
    with assms(1) c show ?thesis unfolding st' by (auto simp: seen_inv_def)
  qed
qed

lemma first_bad_at_0:
  "first_bad_at pre (p # ps) err 0 = (bad pre p \<and> err = invalid_argument (bad_message pre p))"
  by (simp add: first_bad_at_def)

lemma first_bad_at_Suc:
  "first_bad_at pre (p # ps) err (Suc i) = (\<not> bad pre p \<and> first_bad_at (pre @ [p]) ps err i)"
  by (auto simp: first_bad_at_def less_Suc_eq_0_disj)

lemma ex_less_Suc_shift:
  "(\<exists>i<Suc n. P i) = (P 0 \<or> (\<exists>i<n. P (Suc i)))"
  by (auto simp: less_Suc_eq_0_disj)

lemma apply_parameters_error:
  "seen_inv pre st \<Longrightarrow>
   (apply_parameters ps st = Inl err) = (\<exists>i<length ps. first_bad_at pre ps err i)"
proof (induction ps arbitrary: pre st)
  case Nil
  then show ?case by simp
next
  case (Cons p ps)
  show ?case
  proof (cases "bad pre p")
    case True
    with Cons.prems have "apply_parameter p st = Inl (invalid_argument (bad_message pre p))"
      by (simp add: apply_parameter_error)
    with True show ?thesis
      by (auto simp: ex_less_Suc_shift first_bad_at_0 first_bad_at_Suc)
  next
    case False
    with Cons.prems have "\<And>e. apply_parameter p st \<noteq> Inl e"
      by (simp add: apply_parameter_error)
    then obtain st' where st': "apply_parameter p st = Inr st'"
      by (cases "apply_parameter p st") auto
    with Cons.prems have "seen_inv (pre @ [p]) st'" by (rule apply_parameter_inv)
    then have "(apply_parameters ps st' = Inl err) =
        (\<exists>i<length ps. first_bad_at (pre @ [p]) ps err i)"
      by (rule Cons.IH)
    with False st' show ?thesis
      by (simp add: ex_less_Suc_shift first_bad_at_0 first_bad_at_Suc)
  qed
qed

lemma seen_inv_initial: "seen_inv [] initial_state"
  by (simp add: seen_inv_def initial_state_def all_less_5)

lemma set_take_nth: "i \<le> length ps \<Longrightarrow> (q \<in> set (take i ps)) = (\<exists>j<i. ps ! j = q)"
  by (auto simp: in_set_conv_nth)

lemma bad_offending:
  assumes "i < length ps"
  shows "bad (take i ps) (ps ! i) = offending ps i"
proof -
  from assms have le: "i \<le> length ps" by simp
  have c: "(\<exists>q\<in>set (take i ps). is_color q) = (\<exists>j<i. is_color (ps ! j))"
    unfolding Bex_def set_take_nth [OF le] by blast
  have s: "(ps ! i \<in> set (take i ps)) = (\<exists>j<i. ps ! j = ps ! i)"
    by (rule set_take_nth [OF le])
  show ?thesis
  proof (cases "ps ! i = []")
    case True
    then show ?thesis
      by (simp add: bad_def offending_def second_color_def repeated_style_def unknown_token_def
          empty_not_token)
  next
    case False
    then show ?thesis
      by (simp add: bad_def offending_def second_color_def repeated_style_def
          unknown_token_def c s)
  qed
qed

lemma bad_message_offending:
  assumes "i < length ps" and "offending ps i"
  shows "bad_message (take i ps) (ps ! i) = error_message ps i"
  using assms color_not_style [of "ps ! i"]
  by (auto simp: bad_message_def error_message_def offending_def second_color_def
      repeated_style_def unknown_token_def)

lemma first_bad_at_offending:
  assumes "i < length ps"
  shows "first_bad_at [] ps err i =
    (offending ps i \<and> (\<forall>j<i. \<not> offending ps j) \<and> err = invalid_argument (error_message ps i))"
proof -
  have "\<And>j. j < i \<Longrightarrow> bad (take j ps) (ps ! j) = offending ps j"
    using assms by (simp add: bad_offending)
  then have "(\<forall>j<i. \<not> bad (take j ps) (ps ! j)) = (\<forall>j<i. \<not> offending ps j)" by simp
  then show ?thesis
    using assms bad_message_offending [of i ps]
    by (auto simp: first_bad_at_def bad_offending)
qed

lemma formatString_Inl:
  assumes "str \<noteq> []"
  shows "(formatString str t1 t2 t3 t4 t5 t6 = Inl err) =
    (\<exists>i<6. offending [t1, t2, t3, t4, t5, t6] i \<and>
       (\<forall>j<i. \<not> offending [t1, t2, t3, t4, t5, t6] j) \<and>
       err = invalid_argument (error_message [t1, t2, t3, t4, t5, t6] i))"
proof -
  let ?ps = "[t1, t2, t3, t4, t5, t6]"
  have len: "length ?ps = 6" by simp
  have "(formatString str t1 t2 t3 t4 t5 t6 = Inl err) = (apply_parameters ?ps initial_state = Inl err)"
    using assms by (simp add: formatString_def split: sum.splits)
  also have "\<dots> = (\<exists>i<length ?ps. first_bad_at [] ?ps err i)"
    by (rule apply_parameters_error [OF seen_inv_initial])
  also have "\<dots> = (\<exists>i<length ?ps. offending ?ps i \<and> (\<forall>j<i. \<not> offending ?ps j) \<and>
       err = invalid_argument (error_message ?ps i))"
    using first_bad_at_offending [of _ ?ps err] by blast
  finally show ?thesis unfolding len .
qed

lemma least_offending:
  assumes "i < n" and "P (i::nat)"
  shows "\<exists>k<n. P k \<and> (\<forall>j<k. \<not> P j)"
proof -
  from assms(2) obtain k where k: "P k" "\<forall>j<k. \<not> P j"
    using exists_least_iff [of P] by blast
  with assms(2) have "\<not> i < k" by blast
  with assms(1) have "k < n" by simp
  with k show ?thesis by blast
qed

lemma c_str_multiple_colors: "c_str multiple_colors_message = multiple_colors_message"
  by (simp add: c_str_def multiple_colors_message_def cross_mark_def)

lemma c_str_unknown_format: "c_str (unknown_format_message p) = unknown_format_message (c_str p)"
  by (simp add: c_str_def unknown_format_message_def cross_mark_def)

lemma c_str_duplicate_style:
  "is_style p \<Longrightarrow> c_str (duplicate_style_message p) = duplicate_style_message p"
  by (auto simp: is_style_def styles_def c_str_def duplicate_style_message_def cross_mark_def)

lemma invalid_argument_reported:
  "offending ps i \<Longrightarrow> invalid_argument (error_message ps i) = InvalidArgument (reported_message ps i)"
  by (auto simp: invalid_argument_def error_message_def reported_message_def offending_def
      repeated_style_def c_str_multiple_colors c_str_unknown_format c_str_duplicate_style)

text \<open>
  C3, as amended. For a non-empty payload, \<^verbatim>\<open>formatString\<close> throws exactly when one of
  its six tokens is a second color, a repeated style or a non-empty token of neither
  table. The error is that of the first such token, and what the caller reads of it is:
  the fixed message of the multiple colors case, which does not name the token; the
  duplicate style message, which holds the token; or the unknown format message, which
  ends with the token as far as its first NUL byte.
\<close>

theorem formatString_invalid_format:
  assumes "str \<noteq> []"
  shows "((\<exists>err. formatString str t1 t2 t3 t4 t5 t6 = Inl err) =
           (\<exists>i<6. offending [t1, t2, t3, t4, t5, t6] i)) \<and>
         (\<forall>err. formatString str t1 t2 t3 t4 t5 t6 = Inl err \<longrightarrow>
           (\<exists>i<6. offending [t1, t2, t3, t4, t5, t6] i \<and>
              (\<forall>j<i. \<not> offending [t1, t2, t3, t4, t5, t6] j) \<and>
              err = InvalidArgument (reported_message [t1, t2, t3, t4, t5, t6] i)))"
proof (intro conjI allI impI)
  fix err
  assume "formatString str t1 t2 t3 t4 t5 t6 = Inl err"
  then obtain i where i: "i < 6" "offending [t1, t2, t3, t4, t5, t6] i"
      "\<forall>j<i. \<not> offending [t1, t2, t3, t4, t5, t6] j"
      "err = invalid_argument (error_message [t1, t2, t3, t4, t5, t6] i)"
    unfolding formatString_Inl [OF assms] by blast
  from i(2,4) have "err = InvalidArgument (reported_message [t1, t2, t3, t4, t5, t6] i)"
    by (simp add: invalid_argument_reported)
  with i(1,2,3) show "\<exists>i<6. offending [t1, t2, t3, t4, t5, t6] i \<and>
      (\<forall>j<i. \<not> offending [t1, t2, t3, t4, t5, t6] j) \<and>
      err = InvalidArgument (reported_message [t1, t2, t3, t4, t5, t6] i)"
    by blast
next
  show "(\<exists>err. formatString str t1 t2 t3 t4 t5 t6 = Inl err) =
      (\<exists>i<6. offending [t1, t2, t3, t4, t5, t6] i)"
  proof
    assume "\<exists>err. formatString str t1 t2 t3 t4 t5 t6 = Inl err"
    then show "\<exists>i<6. offending [t1, t2, t3, t4, t5, t6] i"
      unfolding formatString_Inl [OF assms] by blast
  next
    assume "\<exists>i<6. offending [t1, t2, t3, t4, t5, t6] i"
    then obtain i where "i < 6" "offending [t1, t2, t3, t4, t5, t6] i" by blast
    then obtain k where "k < 6" "offending [t1, t2, t3, t4, t5, t6] k"
      "\<forall>j<k. \<not> offending [t1, t2, t3, t4, t5, t6] j"
      using least_offending [of i 6 "offending [t1, t2, t3, t4, t5, t6]"] by blast
    then show "\<exists>err. formatString str t1 t2 t3 t4 t5 t6 = Inl err"
      unfolding formatString_Inl [OF assms] by blast
  qed
qed

theorem formatString_invalid_format_witness:
  "''x'' \<noteq> [] \<and>
   (\<exists>i<6. offending [''bold'', [CHR ''a'', CHR 0x00, CHR ''b''], [], [], [], []] i) \<and>
   formatString ''x'' ''bold'' [CHR ''a'', CHR 0x00, CHR ''b''] [] [] [] [] =
     Inl (InvalidArgument (cross_mark @ '' Unknown format detected: a''))"
proof -
  let ?ps = "[''bold'', [CHR ''a'', CHR 0x00, CHR ''b''], [], [], [], []]"
  have ne: "''x'' \<noteq> []" by simp
  have o0: "\<not> offending ?ps 0"
    by (simp add: offending_def second_color_def repeated_style_def unknown_token_def
        is_color_def is_style_def colors_def styles_def)
  have o1: "offending ?ps 1"
    by (simp add: offending_def second_color_def repeated_style_def unknown_token_def
        is_color_def is_style_def colors_def styles_def)
  then have ex: "\<exists>i<6. offending ?ps i" by (intro exI [of _ 1]) simp
  note inst = formatString_invalid_format
    [OF ne, of "''bold''" "[CHR ''a'', CHR 0x00, CHR ''b'']" "[]" "[]" "[]" "[]"]
  from inst ex obtain err
    where e: "formatString ''x'' ''bold'' [CHR ''a'', CHR 0x00, CHR ''b''] [] [] [] [] = Inl err"
    by blast
  with inst obtain i where i: "offending ?ps i" "\<forall>j<i. \<not> offending ?ps j"
    "err = InvalidArgument (reported_message ?ps i)"
    by blast
  from i(2) o1 have "\<not> 1 < i" by blast
  moreover from i(1) o0 have "i \<noteq> 0" by metis
  ultimately have "i = 1" by simp
  moreover have "reported_message ?ps 1 = cross_mark @ '' Unknown format detected: a''"
    by (simp add: reported_message_def second_color_def repeated_style_def is_color_def
        is_style_def colors_def styles_def c_str_def unknown_format_message_def)
  ultimately have "err = InvalidArgument (cross_mark @ '' Unknown format detected: a'')"
    using i(3) by simp
  with ne ex e show ?thesis by blast
qed

text \<open>
  C3 as stated fails: a second color is reported by the same error whatever the token
  is, so the error does not identify the offending token.
\<close>

theorem multiple_colors_token_not_identified:
  "formatString ''x'' ''red'' ''green'' [] [] [] [] = Inl (InvalidArgument multiple_colors_message) \<and>
   formatString ''x'' ''red'' ''blue'' [] [] [] [] = Inl (InvalidArgument multiple_colors_message) \<and>
   ''green'' \<noteq> ''blue''"
  by (simp add: formatString_def apply_parameter_def initial_state_def colors_def styles_def
      invalid_argument_def c_str_multiple_colors)

subsection \<open>formatString without tokens\<close>

text \<open>
  C1, as amended. With all six tokens empty, \<^verbatim>\<open>formatString\<close> on a non-empty payload
  returns the payload as it is (escape sequences included) followed by the reset
  escape.
\<close>

theorem formatString_no_tokens:
  "str \<noteq> [] \<Longrightarrow> formatString str [] [] [] [] [] [] = Inr (str @ reset)"
  by (simp add: formatString_def apply_parameter_def initial_state_def)

theorem formatString_no_tokens_witness:
  "''hello'' \<noteq> [] \<and> formatString ''hello'' [] [] [] [] [] [] = Inr (''hello'' @ ESC # ''[0m'')"
  using formatString_no_tokens [of "''hello''"] by (simp add: reset_def)

text \<open>
  C1 as stated fails: \<^verbatim>\<open>formatString("hello")\<close> is \<^verbatim>\<open>"hello\033[0m"\<close>, not \<^verbatim>\<open>"hello"\<close>.
\<close>

theorem formatString_hello_not_unchanged:
  "formatString ''hello'' [] [] [] [] [] [] = Inr (''hello'' @ ESC # ''[0m'') \<and>
   formatString ''hello'' [] [] [] [] [] [] \<noteq> Inr ''hello''"
  by (simp add: formatString_def apply_parameter_def initial_state_def reset_def)

subsection \<open>The empty payload\<close>

text \<open>
  C9. Whatever the six tokens are (unknown, repeated or conflicting ones included),
  \<^verbatim>\<open>formatString\<close> on the empty payload returns the empty string and throws nothing.
\<close>

theorem formatString_empty_payload:
  "formatString [] t1 t2 t3 t4 t5 t6 = Inr []"
  by (simp add: formatString_def)

theorem formatString_empty_payload_witness:
  "formatString [] ''red'' ''blue'' ''bold'' ''bold'' ''no such token'' [] = Inr []"
  by (rule formatString_empty_payload)

subsection \<open>The digit loop of formatUnsignedInteger\<close>

lemma group3_snoc:
  "group3 (ds @ [d]) =
    (if ds \<noteq> [] \<and> length ds mod 3 = 0 then group3 ds @ [CHR '','', d] else group3 ds @ [d])"
proof (induction ds rule: group3.induct)
  case (1 a b c e ds)
  have "length (a # b # c # e # ds) mod 3 = length (e # ds) mod 3"
    by simp presburger
  with 1 show ?case by simp
qed simp_all

lemma length_group3_ge: "length ds \<le> length (group3 ds)"
  by (induction ds rule: group3.induct) simp_all

lemma digit_char_digit_of: "digit_char d = digit_of (unat d)"
  by (simp add: digit_char_def digit_of_def)

lemma unat_10: "unat (10 :: unsigned_int) = 10"
  by simp

lemma div_10_zero_iff: "(number div 10 = 0) = (unat (number :: unsigned_int) < 10)"
proof -
  have "(number div 10 = 0) = (unat (number div 10) = 0)" by (simp add: unat_eq_0)
  also have "\<dots> = (unat number div 10 = 0)" by (simp add: unat_div)
  also have "\<dots> = (unat number < 10)" by (simp add: div_eq_0_iff)
  finally show ?thesis .
qed

lemma group_digits_invariant:
  "formattedUnsignedInteger = rev (group3 ds) \<Longrightarrow>
   length formattedUnsignedInteger = length ds + commaCount \<Longrightarrow>
   group_digits number formattedUnsignedInteger commaCount =
     rev (group3 (ds @ map digit_of (base10 (unat number))))"
proof (induction number formattedUnsignedInteger commaCount arbitrary: ds
    rule: group_digits.induct)
  case (1 number s commaCount)
  let ?d = "digit_of (unat number mod 10)"
  let ?comma = "s \<noteq> [] \<and> (length s - commaCount) mod 3 = 0"
  obtain separated commaCount' where sep: "insert_separator s commaCount = (separated, commaCount')"
    by (cases "insert_separator s commaCount")
  have same: "?comma = (ds \<noteq> [] \<and> length ds mod 3 = 0)"
    using "1.prems" by auto
  have s2: "?d # separated = rev (group3 (ds @ [?d]))"
    using sep same "1.prems"(1)
    by (auto simp: insert_separator_def group3_snoc split: if_splits)
  have len2: "length (?d # separated) = length (ds @ [?d]) + commaCount'"
    using sep "1.prems"(2) by (auto simp: insert_separator_def split: if_splits)
  have dc: "digit_char (number mod 10) = ?d"
    by (simp add: digit_char_digit_of unat_mod)
  show ?case
  proof (cases "number div 10 = 0")
    case True
    then have small: "unat number < 10" by (simp add: div_10_zero_iff)
    then have "base10 (unat number) = [unat number]" by (simp add: base10.simps)
    moreover from small have "unat number mod 10 = unat number" by simp
    ultimately show ?thesis
      using True sep s2 dc by (subst group_digits.simps) simp
  next
    case False
    then have big: "\<not> unat number < 10" by (simp add: div_10_zero_iff)
    then have b: "base10 (unat number) = unat number mod 10 # base10 (unat number div 10)"
      by (subst base10.simps) simp
    have "group_digits (number div 10) (digit_char (number mod 10) # separated) commaCount' =
        rev (group3 ((ds @ [?d]) @ map digit_of (base10 (unat (number div 10)))))"
      using sep False s2 len2 dc
      by (intro "1.IH" [OF sep [symmetric] False, of "ds @ [?d]"]) simp_all
    then show ?thesis
      using False sep b by (subst group_digits.simps) (simp add: unat_div)
  qed
qed

lemma group_digits_grouped_decimal: "group_digits number [] 0 = grouped_decimal (unat number)"
  using group_digits_invariant [of "[]" "[]" 0 number] by (simp add: grouped_decimal_def)


lemma base10_less: "d \<in> set (base10 n) \<Longrightarrow> d < 10"
proof (induction n rule: base10.induct)
  case (1 n)
  then show ?case by (subst (asm) (2) base10.simps) (auto split: if_splits)
qed

lemma digit_of_numerals:
  "digit_of 0 = CHR ''0''" "digit_of 1 = CHR ''1''" "digit_of 2 = CHR ''2''"
  "digit_of 3 = CHR ''3''" "digit_of 4 = CHR ''4''" "digit_of 5 = CHR ''5''"
  "digit_of 6 = CHR ''6''" "digit_of 7 = CHR ''7''" "digit_of 8 = CHR ''8''"
  "digit_of 9 = CHR ''9''" "digit_of (Suc 0) = CHR ''1''"
  by (code_simp)+

lemma digit_of_cases:
  "d < 10 \<Longrightarrow> digit_of d \<in> set ''0123456789''"
proof -
  assume "d < 10"
  then have "d \<in> {0, 1, 2, 3, 4, 5, 6, 7, 8, 9}" by auto
  then show ?thesis using digit_of_numerals by auto
qed

lemma set_group3: "set (group3 ds) \<subseteq> insert CHR '','' (set ds)"
  by (induction ds rule: group3.induct) auto

lemma grouped_decimal_chars: "set (grouped_decimal n) \<subseteq> set ''0123456789,''"
proof
  fix c
  assume "c \<in> set (grouped_decimal n)"
  then have "c \<in> insert CHR '','' (digit_of ` set (base10 n))"
    using set_group3 [of "map digit_of (base10 n)"] by (auto simp: grouped_decimal_def)
  then show "c \<in> set ''0123456789,''"
    using base10_less [of _ n] digit_of_cases by auto
qed

lemma grouped_decimal_nonempty: "grouped_decimal n \<noteq> []"
proof -
  have "base10 n \<noteq> []" by (subst base10.simps) simp
  then have "map digit_of (base10 n) \<noteq> []" by simp
  then have "group3 (map digit_of (base10 n)) \<noteq> []"
    using length_group3_ge [of "map digit_of (base10 n)"] by auto
  then show ?thesis by (simp add: grouped_decimal_def)
qed

lemma group3_short: "length ds \<le> 3 \<Longrightarrow> group3 ds = ds"
  by (induction ds rule: group3.induct) simp_all

lemma length_base10_less_1000: "n < 1000 \<Longrightarrow> length (base10 n) \<le> 3"
proof -
  assume n: "n < 1000"
  show ?thesis
  proof (cases "n < 10")
    case True
    then show ?thesis by (subst base10.simps) simp
  next
    case False
    note f1 = this
    show ?thesis
    proof (cases "n div 10 < 10")
      case True
      with f1 show ?thesis by (subst base10.simps, subst base10.simps) simp
    next
      case False
      moreover from n have "n div 10 div 10 < 10" by simp
      ultimately show ?thesis using f1
        by (subst base10.simps, subst base10.simps, subst base10.simps) simp
    qed
  qed
qed

lemma no_comma_below_1000: "n < 1000 \<Longrightarrow> CHR '','' \<notin> set (grouped_decimal n)"
proof -
  assume n: "n < 1000"
  then have "group3 (map digit_of (base10 n)) = map digit_of (base10 n)"
    using length_base10_less_1000 by (intro group3_short) simp
  then have eq: "set (grouped_decimal n) = digit_of ` set (base10 n)"
    by (simp add: grouped_decimal_def)
  have nc: "\<And>d. d \<in> set (base10 n) \<Longrightarrow> digit_of d \<noteq> CHR '',''"
  proof -
    fix d
    assume "d \<in> set (base10 n)"
    then have "d < 10" by (rule base10_less)
    then have "digit_of d \<in> set ''0123456789''" by (rule digit_of_cases)
    then show "digit_of d \<noteq> CHR '',''" by auto
  qed
  show ?thesis
  proof
    assume "CHR '','' \<in> set (grouped_decimal n)"
    with eq obtain d where "d \<in> set (base10 n)" and "digit_of d = CHR '',''" by auto
    with nc show False by blast
  qed
qed

lemma grouped_decimal_million: "grouped_decimal 1000000 = ''1,000,000''"
  by (simp add: grouped_decimal_def base10.simps digit_of_numerals)

text \<open>
  C8. \<^verbatim>\<open>formatUnsignedInteger\<close> hands \<^verbatim>\<open>formatString\<close> the base 10 digits of the
  number with a comma after every third digit counted from the least significant one,
  and all six tokens; below 1000 there is no comma, and 1000000 gives the digit text
  \<^verbatim>\<open>1,000,000\<close>.
\<close>

theorem formatUnsignedInteger_grouped:
  "formatUnsignedInteger number t1 t2 t3 t4 t5 t6 =
     formatString (grouped_decimal (unat number)) t1 t2 t3 t4 t5 t6 \<and>
   (unat number < 1000 \<longrightarrow> CHR '','' \<notin> set (grouped_decimal (unat number))) \<and>
   group_digits 1000000 [] 0 = ''1,000,000''"
  using no_comma_below_1000 grouped_decimal_million
  by (simp add: formatUnsignedInteger_def group_digits_grouped_decimal)

theorem formatUnsignedInteger_grouped_witness:
  "unat (999 :: unsigned_int) < 1000 \<and>
   formatUnsignedInteger 999 ''bold'' [] [] [] [] [] = formatString ''999'' ''bold'' [] [] [] [] [] \<and>
   CHR '','' \<notin> set (grouped_decimal 999)"
proof -
  have a: "unat (999 :: unsigned_int) = 999" by simp
  have b: "grouped_decimal 999 = ''999''"
    by (simp add: grouped_decimal_def base10.simps digit_of_numerals)
  from formatUnsignedInteger_grouped [of 999 "''bold''" "[]" "[]" "[]" "[]" "[]"]
  show ?thesis unfolding a b by simp
qed

subsection \<open>Stripping escape codes\<close>

lemma removePreviousFormats_no_marker: "no_marker s \<Longrightarrow> removePreviousFormats s = s"
  by (subst removePreviousFormats.simps) (simp add: no_marker_def)

lemma no_ESC_no_marker: "ESC \<notin> set s \<Longrightarrow> no_marker s"
  unfolding no_marker_def by (induction s) auto

lemma find_chr_append_notin:
  "c \<notin> set xs \<Longrightarrow> find_chr c (xs @ c # ys) = Some (length xs)"
  by (induction xs) auto

lemma removePreviousFormats_code:
  assumes "escape_code c"
  shows "removePreviousFormats (c @ rest) = removePreviousFormats rest"
proof -
  from assms obtain body where c: "c = ESC # CHR ''['' # body @ ''m''"
    and m: "CHR ''m'' \<notin> set body"
    by (auto simp: escape_code_def)
  have start: "find_str (ESC # ''['') (c @ rest) = Some 0" by (simp add: c)
  have "find_chr CHR ''m'' (c @ rest) = Some (length body + 2)"
    using find_chr_append_notin [OF m, of rest] by (simp add: c)
  then have stop: "find_chr_from CHR ''m'' (c @ rest) 0 = Some (length body + 2)"
    by (simp add: find_chr_from_def)
  have "erase (c @ rest) 0 (length body + 2 - 0 + 1) = rest"
    by (simp add: erase_def c)
  with start stop show ?thesis
    by (subst removePreviousFormats.simps) simp
qed

lemma removePreviousFormats_codes:
  "\<forall>c\<in>set cs. escape_code c \<Longrightarrow>
   removePreviousFormats (concat cs @ rest) = removePreviousFormats rest"
  by (induction cs) (simp_all add: removePreviousFormats_code)

lemma no_marker_Cons: "no_marker (c # cs) \<Longrightarrow> no_marker cs"
  by (auto simp: no_marker_def split: if_splits)

lemma find_str_marker_append:
  "no_marker s \<Longrightarrow> find_str (ESC # ''['') (s @ ESC # CHR ''['' # rest) = Some (length s)"
proof (induction s)
  case Nil
  then show ?case by simp
next
  case (Cons c cs)
  then have ih: "find_str (ESC # ''['') (cs @ ESC # CHR ''['' # rest) = Some (length cs)"
    using no_marker_Cons by blast
  from Cons.prems have "take 2 (c # cs) \<noteq> ESC # ''[''"
    by (auto simp: no_marker_def numeral_2_eq_2 split: if_splits)
  then have "take 2 ((c # cs) @ ESC # CHR ''['' # rest) \<noteq> ESC # ''[''"
    by (cases cs) (auto simp: numeral_2_eq_2)
  with ih show ?case by (simp add: numeral_2_eq_2)
qed

lemma drop_code: "drop (3 + length body) (x # y # body @ z # rest) = rest"
  by (simp add: numeral_3_eq_3)

lemma removePreviousFormats_text_code:
  assumes "no_marker s" and "escape_code c"
  shows "removePreviousFormats (s @ c @ rest) = removePreviousFormats (s @ rest)"
proof -
  from assms(2) obtain body where c: "c = ESC # CHR ''['' # body @ ''m''"
    and m: "CHR ''m'' \<notin> set body"
    by (auto simp: escape_code_def)
  have start: "find_str (ESC # ''['') (s @ c @ rest) = Some (length s)"
    using find_str_marker_append [OF assms(1)] by (simp add: c)
  have "find_chr CHR ''m'' (c @ rest) = Some (length body + 2)"
    using find_chr_append_notin [OF m, of rest] by (simp add: c)
  then have stop: "find_chr_from CHR ''m'' (s @ c @ rest) (length s) = Some (length s + (length body + 2))"
    by (simp add: find_chr_from_def)
  have "erase (s @ c @ rest) (length s) (length s + (length body + 2) - length s + 1) = s @ rest"
    by (simp add: erase_def c drop_code)
  with start stop show ?thesis
    by (subst removePreviousFormats.simps) simp
qed

lemma removePreviousFormats_text_codes:
  "no_marker s \<Longrightarrow> \<forall>c\<in>set cs. escape_code c \<Longrightarrow> removePreviousFormats (s @ concat cs) = s"
proof (induction cs)
  case Nil
  then show ?case by (simp add: removePreviousFormats_no_marker)
next
  case (Cons c cs)
  then have "removePreviousFormats (s @ c @ concat cs) = removePreviousFormats (s @ concat cs)"
    by (intro removePreviousFormats_text_code) simp_all
  with Cons show ?case by simp
qed

lemma strip_wrapped:
  assumes "no_marker s" and "\<forall>c\<in>set pre. escape_code c" and "\<forall>c\<in>set post. escape_code c"
  shows "removePreviousFormats (concat pre @ s @ concat post) = s"
  using assms by (simp add: removePreviousFormats_codes removePreviousFormats_text_codes)

lemma escape_code_one: "a \<noteq> CHR ''m'' \<Longrightarrow> escape_code [ESC, CHR ''['', a, CHR ''m'']"
  unfolding escape_code_def by (rule exI [of _ "[a]"]) simp

lemma escape_code_two:
  "a \<noteq> CHR ''m'' \<Longrightarrow> b \<noteq> CHR ''m'' \<Longrightarrow> escape_code [ESC, CHR ''['', a, b, CHR ''m'']"
  unfolding escape_code_def by (rule exI [of _ "[a, b]"]) simp

lemma escape_code_reset: "escape_code reset"
  by (simp add: reset_def escape_code_one)

lemma escape_code_colors: "j < length colors \<Longrightarrow> escape_code (snd (colors ! j))"
proof -
  have "\<forall>row\<in>set colors. escape_code (snd row)"
    by (simp add: colors_def escape_code_two)
  then show "j < length colors \<Longrightarrow> escape_code (snd (colors ! j))" by simp
qed

lemma escape_code_styles: "j < length styles \<Longrightarrow> escape_code (snd (styles ! j))"
proof -
  have "\<forall>row\<in>set styles. escape_code (snd row)"
    by (simp add: styles_def escape_code_one)
  then show "j < length styles \<Longrightarrow> escape_code (snd (styles ! j))" by simp
qed

lemma codes_inv_initial: "codes_inv initial_state"
  unfolding codes_inv_def initial_state_def by (rule exI [of _ "[]"]) simp

lemma apply_parameter_codes:
  assumes "codes_inv st" and "apply_parameter p st = Inr st'"
  shows "codes_inv st'"
proof -
  from assms(1) obtain cs where cs: "color st @ formats st = concat cs"
    and esc: "\<forall>c\<in>set cs. escape_code c"
    by (auto simp: codes_inv_def)
  show ?thesis
  proof (cases "p = []")
    case True
    with assms show ?thesis by (simp add: apply_parameter_def)
  next
    case False
    note nonempty = this
    show ?thesis
    proof (cases "find_name p colors")
      case (Some j)
      then have "j < length colors" using find_name_Some by blast
      then have code: "escape_code (snd (colors ! j))" by (rule escape_code_colors)
      from assms(2) Some nonempty have "color st = []" and "st' = st\<lparr>color := snd (colors ! j)\<rparr>"
        by (auto simp: apply_parameter_def split: if_splits)
      with cs have "color st' @ formats st' = concat (snd (colors ! j) # cs)" by simp
      with esc code show ?thesis unfolding codes_inv_def
        by (intro exI [of _ "snd (colors ! j) # cs"]) simp
    next
      case None
      with assms(2) nonempty obtain j where Some: "find_name p styles = Some j"
        by (auto simp: apply_parameter_def split: option.splits)
      then have "j < length styles" using find_name_Some by blast
      then have code: "escape_code (snd (styles ! j))" by (rule escape_code_styles)
      from assms(2) None Some nonempty
      have "st' = st\<lparr>formats := formats st @ snd (styles ! j),
                       activeStyles := (activeStyles st)[j := True]\<rparr>"
        by (auto simp: apply_parameter_def split: if_splits)
      with cs have "color st' @ formats st' = concat (cs @ [snd (styles ! j)])" by simp
      with esc code show ?thesis unfolding codes_inv_def
        by (intro exI [of _ "cs @ [snd (styles ! j)]"]) simp
    qed
  qed
qed

lemma apply_parameters_codes:
  "codes_inv st \<Longrightarrow> apply_parameters ps st = Inr st' \<Longrightarrow> codes_inv st'"
proof (induction ps arbitrary: st)
  case Nil
  then show ?case by simp
next
  case (Cons p ps)
  from Cons.prems(2) obtain st1 where 1: "apply_parameter p st = Inr st1"
    and 2: "apply_parameters ps st1 = Inr st'"
    by (auto split: sum.splits)
  from Cons.prems(1) 1 have "codes_inv st1" by (rule apply_parameter_codes)
  then show ?case using 2 by (rule Cons.IH)
qed

text \<open>
  What \<^verbatim>\<open>formatString\<close> returns for a payload without start marker: escape codes, the
  payload, the reset code.
\<close>

lemma formatString_shape:
  assumes "no_marker str" and "formatString str t1 t2 t3 t4 t5 t6 = Inr out"
  shows "out = [] \<and> str = [] \<or>
    (\<exists>cs. out = concat cs @ str @ reset \<and> (\<forall>c\<in>set cs. escape_code c))"
proof (cases "str = []")
  case True
  with assms(2) show ?thesis by (simp add: formatString_def)
next
  case False
  with assms(2) obtain st where st: "apply_parameters [t1, t2, t3, t4, t5, t6] initial_state = Inr st"
    and out: "out = color st @ formats st
      @ (if color st \<noteq> [] \<or> formats st \<noteq> [] then removePreviousFormats str else str) @ reset"
    by (auto simp: formatString_def split: sum.splits)
  from st have "codes_inv st" using codes_inv_initial apply_parameters_codes by blast
  then obtain cs where cs: "color st @ formats st = concat cs"
    and esc: "\<forall>c\<in>set cs. escape_code c"
    by (auto simp: codes_inv_def)
  from out assms(1) have "out = (color st @ formats st) @ str @ reset"
    by (simp add: removePreviousFormats_no_marker)
  with cs esc show ?thesis by auto
qed

lemma removePreviousFormats_formatString:
  assumes "no_marker str" and "formatString str t1 t2 t3 t4 t5 t6 = Inr out"
  shows "removePreviousFormats out = str"
proof -
  from formatString_shape [OF assms]
  consider "out = []" "str = []"
    | cs where "out = concat cs @ str @ reset" "\<forall>c\<in>set cs. escape_code c"
    by blast
  then show ?thesis
  proof cases
    case 1
    then show ?thesis by (simp add: removePreviousFormats_no_marker no_marker_def)
  next
    case 2
    then show ?thesis
      using strip_wrapped [OF assms(1), of cs "[reset]"] escape_code_reset by simp
  qed
qed

subsection \<open>The digit text holds no escape\<close>

lemma grouped_decimal_no_marker: "no_marker (grouped_decimal n)"
proof -
  have "ESC \<notin> set ''0123456789,''" by simp
  then have "ESC \<notin> set (grouped_decimal n)" using grouped_decimal_chars [of n] by blast
  then show ?thesis by (rule no_ESC_no_marker)
qed

lemma removePreviousFormats_formatUnsignedInteger:
  "formatUnsignedInteger number t1 t2 t3 t4 t5 t6 = Inr out \<Longrightarrow>
   removePreviousFormats out = grouped_decimal (unat number)"
  unfolding formatUnsignedInteger_def group_digits_grouped_decimal
  by (rule removePreviousFormats_formatString [OF grouped_decimal_no_marker])

lemma formatString_red_blink_bold:
  "str \<noteq> [] \<Longrightarrow> no_marker str \<Longrightarrow>
   formatString str ''red'' ''blink'' ''bold'' [] [] [] =
     Inr (ESC # ''[31m'' @ ESC # ''[5m'' @ ESC # ''[1m'' @ str @ ESC # ''[0m'')"
  by (simp add: formatString_def apply_parameter_def initial_state_def colors_def styles_def
      removePreviousFormats_no_marker reset_def)

lemma formatString_green_blink_bold:
  "str \<noteq> [] \<Longrightarrow> no_marker str \<Longrightarrow>
   formatString str ''green'' ''blink'' ''bold'' [] [] [] =
     Inr (ESC # ''[32m'' @ ESC # ''[5m'' @ ESC # ''[1m'' @ str @ ESC # ''[0m'')"
  by (simp add: formatString_def apply_parameter_def initial_state_def colors_def styles_def
      removePreviousFormats_no_marker reset_def)

lemma formatUnsignedInteger_red:
  "formatUnsignedInteger number ''red'' ''blink'' ''bold'' [] [] [] = Inr (too_low_rendering number)"
  unfolding formatUnsignedInteger_def group_digits_grouped_decimal too_low_rendering_def
  by (rule formatString_red_blink_bold [OF grouped_decimal_nonempty grouped_decimal_no_marker])

lemma formatUnsignedInteger_green:
  "formatUnsignedInteger number ''green'' ''blink'' ''bold'' [] [] [] = Inr (too_high_rendering number)"
  unfolding formatUnsignedInteger_def group_digits_grouped_decimal too_high_rendering_def
  by (rule formatString_green_blink_bold [OF grouped_decimal_nonempty grouped_decimal_no_marker])

subsection \<open>The color check and the range tests of the gradient\<close>

lemma color_given_iff: "color_given ps = (\<exists>p\<in>set ps. is_color p)"
proof -
  have "\<And>p. (p \<noteq> [] \<and> find_name p colors \<noteq> None) = is_color p"
    using empty_not_token(1) by (auto simp: find_name_colors_None)
  then show ?thesis by (simp add: color_given_def list_ex_iff)
qed

lemma color_given_5:
  "color_given [t1, t2, t3, t4, t5] =
    (is_color t1 \<or> is_color t2 \<or> is_color t3 \<or> is_color t4 \<or> is_color t5)"
  by (simp add: color_given_iff)

lemma too_high_not_too_low: "too_high number minimum maximum \<Longrightarrow> \<not> too_low number minimum maximum"
  by (auto simp: too_high_def too_low_def)

lemma gradient_too_low:
  "\<not> color_given [t1, t2, t3, t4, t5] \<Longrightarrow> too_low number minimum maximum \<Longrightarrow>
   formatGradientUnsignedInteger number minimum maximum t1 t2 t3 t4 t5 =
     Inr (too_low_rendering number)"
  by (simp add: formatGradientUnsignedInteger_def formatUnsignedInteger_red)

lemma gradient_too_high:
  "\<not> color_given [t1, t2, t3, t4, t5] \<Longrightarrow> too_high number minimum maximum \<Longrightarrow>
   formatGradientUnsignedInteger number minimum maximum t1 t2 t3 t4 t5 =
     Inr (too_high_rendering number)"
  using too_high_not_too_low [of number minimum maximum]
  by (simp add: formatGradientUnsignedInteger_def formatUnsignedInteger_green)

lemma gradient_in_range:
  "\<not> color_given [t1, t2, t3, t4, t5] \<Longrightarrow> \<not> too_low number minimum maximum \<Longrightarrow>
   \<not> too_high number minimum maximum \<Longrightarrow>
   formatGradientUnsignedInteger number minimum maximum t1 t2 t3 t4 t5 =
     (case formatUnsignedInteger number t1 t2 t3 t4 t5 [] of
        Inl err \<Rightarrow> Inl err
      | Inr formatted \<Rightarrow>
          Inr (ESC # ''[38;5;'' @ decimal (gradient_index number minimum maximum) @ ''m''
               @ formatted @ reset))"
  by (simp add: formatGradientUnsignedInteger_def)

lemma c_str_gradient: "c_str gradient_message = gradient_message"
  by (simp add: c_str_def gradient_message_def cross_mark_def)

lemma no_color_given_empty: "\<not> color_given [[], [], [], [], []]"
  by (simp add: color_given_5 empty_not_token)

text \<open>
  C7. Whatever the value and the bounds are, a token that is a name of the color table
  makes \<^verbatim>\<open>formatGradientUnsignedInteger\<close> throw its own error: the check comes before
  the range is looked at.
\<close>

theorem gradient_rejects_color:
  "is_color t1 \<or> is_color t2 \<or> is_color t3 \<or> is_color t4 \<or> is_color t5 \<Longrightarrow>
   formatGradientUnsignedInteger number minimum maximum t1 t2 t3 t4 t5 =
     Inl (InvalidArgument gradient_message)"
  by (simp add: formatGradientUnsignedInteger_def color_given_5 invalid_argument_def
      c_str_gradient)

theorem gradient_rejects_color_witness:
  "is_color ''blue'' \<and> too_high 150 0 100 \<and>
   formatGradientUnsignedInteger 150 0 100 ''bold'' ''blue'' [] [] [] =
     Inl (InvalidArgument gradient_message)"
proof -
  have c: "is_color ''blue''" by (simp add: is_color_def colors_def)
  have h: "too_high 150 0 100" by (simp add: too_high_def)
  from c have "is_color ''bold'' \<or> is_color ''blue'' \<or> is_color [] \<or> is_color [] \<or> is_color []"
    by simp
  then have "formatGradientUnsignedInteger 150 0 100 ''bold'' ''blue'' [] [] [] =
     Inl (InvalidArgument gradient_message)"
    by (rule gradient_rejects_color)
  with c h show ?thesis by simp
qed

subsection \<open>The color of a value within the range\<close>


lemma double_facts:
  "int_of_double (double_mul 255 (double_sub 1 (double_mul (double_sub (1 / 2) (1 / 2)) 2))) = 255"
  "int_of_double (double_mul (double_mul 255 (1 / 2)) 2) = 255"
  "int_of_double (double_mul 255 (double_sub 1 (double_mul (double_sub 1 (1 / 2)) 2))) = 0"
  by code_simp+





lemma gradient_ratio_equal_bounds: "gradient_ratio number number number = 1"
  by (simp add: gradient_ratio_def double_of_uint_def)

lemma gradient_index_equal_bounds: "gradient_index number number number = 46"
proof -
  have "gradient_red 1 = 0" using double_facts(3) by (simp add: gradient_red_def)
  moreover have "gradient_green 1 = 255" by (simp add: gradient_green_def)
  moreover have "cube_index 0 255 0 = 46" by (simp add: cube_index_def signed_divide_int_def)
  ultimately show ?thesis by (simp add: gradient_index_def gradient_ratio_equal_bounds)
qed

lemma decimal_46: "decimal 46 = ''46''"
  by code_simp

text \<open>
  Three roundings, for comparison with the doubles a machine prints (\<open>0.5\<close>,
  \<open>0.1000000000000000055511\<close>, \<open>0.9000000000000000222045\<close>); and the value 90 in
  \<open>[0, 100]\<close>, where rounding shows: \<^verbatim>\<open>255 * (1.0 - (ratio - 0.5) * 2)\<close> is just below 51,
  the cast gives 50, and the red coordinate of the cube is 0.
\<close>

lemma to_double_examples:
  "to_double (1 / 2) = 1 / 2"
  "to_double (1 / 10) = 3602879701896397 / 2 ^ 55"
  "to_double (9 / 10) = 8106479329266893 / 2 ^ 53"
  by code_simp+

lemma gradient_rounding_example:
  "gradient_ratio 90 0 100 = 8106479329266893 / 2 ^ 53"
  "gradient_red (gradient_ratio 90 0 100) = 50"
  "gradient_index 90 0 100 = 46"
  by code_simp+



text \<open>
  C6. With tokens that are not colors: a value below the minimum (above it, when the
  bounds are reversed), or different from equal bounds, is rendered in red, blinking and
  bold; a value above the maximum (below it, when the bounds are reversed) in green,
  blinking and bold; and a value equal to equal bounds gets the ratio 1 and the index
  46 of the green end, with nothing divided by zero.
\<close>

theorem gradient_boundaries:
  assumes "\<not> is_color t1" and "\<not> is_color t2" and "\<not> is_color t3" and "\<not> is_color t4"
    and "\<not> is_color t5"
  shows "((number < minimum \<and> minimum < maximum) \<or> (minimum < number \<and> maximum < minimum) \<or>
        (number \<noteq> maximum \<and> minimum = maximum) \<longrightarrow>
      formatGradientUnsignedInteger number minimum maximum t1 t2 t3 t4 t5 =
        Inr (too_low_rendering number)) \<and>
    ((maximum < number \<and> minimum < maximum) \<or> (number < maximum \<and> maximum < minimum) \<longrightarrow>
      formatGradientUnsignedInteger number minimum maximum t1 t2 t3 t4 t5 =
        Inr (too_high_rendering number)) \<and>
    (number = maximum \<and> minimum = maximum \<longrightarrow>
      gradient_ratio number minimum maximum = 1 \<and>
      formatGradientUnsignedInteger number minimum maximum t1 t2 t3 t4 t5 =
        (case formatUnsignedInteger number t1 t2 t3 t4 t5 [] of
           Inl err \<Rightarrow> Inl err
         | Inr formatted \<Rightarrow> Inr (ESC # ''[38;5;46m'' @ formatted @ reset)))"
proof (intro conjI impI)
  from assms have nc: "\<not> color_given [t1, t2, t3, t4, t5]" by (simp add: color_given_5)
  {
    assume "(number < minimum \<and> minimum < maximum) \<or> (minimum < number \<and> maximum < minimum) \<or>
        (number \<noteq> maximum \<and> minimum = maximum)"
    then have "too_low number minimum maximum" by (simp add: too_low_def)
    with nc show "formatGradientUnsignedInteger number minimum maximum t1 t2 t3 t4 t5 =
        Inr (too_low_rendering number)"
      by (rule gradient_too_low)
  next
    assume "(maximum < number \<and> minimum < maximum) \<or> (number < maximum \<and> maximum < minimum)"
    then have "too_high number minimum maximum" by (simp add: too_high_def)
    with nc show "formatGradientUnsignedInteger number minimum maximum t1 t2 t3 t4 t5 =
        Inr (too_high_rendering number)"
      by (rule gradient_too_high)
  next
    assume eq: "number = maximum \<and> minimum = maximum"
    then show "gradient_ratio number minimum maximum = 1"
      by (simp add: gradient_ratio_equal_bounds)
    from eq have "\<not> too_low number minimum maximum" "\<not> too_high number minimum maximum"
      by (simp_all add: too_low_def too_high_def)
    with nc eq show "formatGradientUnsignedInteger number minimum maximum t1 t2 t3 t4 t5 =
        (case formatUnsignedInteger number t1 t2 t3 t4 t5 [] of
           Inl err \<Rightarrow> Inl err
         | Inr formatted \<Rightarrow> Inr (ESC # ''[38;5;46m'' @ formatted @ reset))"
      by (simp add: gradient_in_range gradient_index_equal_bounds decimal_46 cong: sum.case_cong)
  }
qed

theorem gradient_boundaries_witness:
  "\<not> is_color ''bold'' \<and> \<not> is_color [] \<and> (5 :: unsigned_int) < 10 \<and> (10 :: unsigned_int) < 20 \<and>
   formatGradientUnsignedInteger 5 10 20 ''bold'' [] [] [] [] =
     Inr (ESC # ''[31m'' @ ESC # ''[5m'' @ ESC # ''[1m'' @ ''5'' @ ESC # ''[0m'') \<and>
   (100 :: unsigned_int) < 150 \<and> (0 :: unsigned_int) < 100 \<and>
   formatGradientUnsignedInteger 150 0 100 ''bold'' [] [] [] [] =
     Inr (ESC # ''[32m'' @ ESC # ''[5m'' @ ESC # ''[1m'' @ ''150'' @ ESC # ''[0m'') \<and>
   formatGradientUnsignedInteger 7 7 7 ''bold'' [] [] [] [] =
     Inr (ESC # ''[38;5;46m'' @ (ESC # ''[1m'' @ ''7'' @ ESC # ''[0m'') @ ESC # ''[0m'')"
proof -
  have a: "\<not> is_color ''bold''" by (simp add: is_color_def colors_def)
  have b: "\<not> is_color []" by (rule empty_not_token)
  have lo: "(5 :: unsigned_int) < 10" "(10 :: unsigned_int) < 20" by simp_all
  have hi: "(100 :: unsigned_int) < 150" "(0 :: unsigned_int) < 100" by simp_all
  have r5: "too_low_rendering 5 =
      ESC # ''[31m'' @ ESC # ''[5m'' @ ESC # ''[1m'' @ ''5'' @ ESC # ''[0m''"
    by (simp add: too_low_rendering_def grouped_decimal_def base10.simps digit_of_numerals)
  have r150: "too_high_rendering 150 =
      ESC # ''[32m'' @ ESC # ''[5m'' @ ESC # ''[1m'' @ ''150'' @ ESC # ''[0m''"
    by (simp add: too_high_rendering_def grouped_decimal_def base10.simps digit_of_numerals)
  have f7: "formatUnsignedInteger 7 ''bold'' [] [] [] [] [] = Inr (ESC # ''[1m'' @ ''7'' @ ESC # ''[0m'')"
    by code_simp
  from gradient_boundaries [OF a b b b b, of 5 10 20] lo
  have 1: "formatGradientUnsignedInteger 5 10 20 ''bold'' [] [] [] [] = Inr (too_low_rendering 5)"
    by blast
  from gradient_boundaries [OF a b b b b, of 150 0 100] hi
  have 2: "formatGradientUnsignedInteger 150 0 100 ''bold'' [] [] [] [] = Inr (too_high_rendering 150)"
    by blast
  from gradient_boundaries [OF a b b b b, of 7 7 7]
  have 3: "formatGradientUnsignedInteger 7 7 7 ''bold'' [] [] [] [] =
      Inr (ESC # ''[38;5;46m'' @ (ESC # ''[1m'' @ ''7'' @ ESC # ''[0m'') @ ESC # ''[0m'')"
    by (simp add: f7 reset_def)
  from a b lo hi 1 2 3 show ?thesis by (simp only: r5 r150 simp_thms)
qed

text \<open>
  C10. For a value outside the range, the result does not depend on the five tokens as
  long as none is a color: it is the result for five empty tokens, the fixed red or
  green rendering. The styles given are not applied, and a token that is neither a
  color nor a style raises no error.
\<close>

theorem gradient_out_of_range_ignores_styles:
  assumes "\<not> is_color t1" and "\<not> is_color t2" and "\<not> is_color t3" and "\<not> is_color t4"
    and "\<not> is_color t5"
    and "too_low number minimum maximum \<or> too_high number minimum maximum"
  shows "formatGradientUnsignedInteger number minimum maximum t1 t2 t3 t4 t5 =
      formatGradientUnsignedInteger number minimum maximum [] [] [] [] [] \<and>
    formatGradientUnsignedInteger number minimum maximum t1 t2 t3 t4 t5 =
      Inr (if too_low number minimum maximum then too_low_rendering number
           else too_high_rendering number)"
proof -
  from assms have nc: "\<not> color_given [t1, t2, t3, t4, t5]" by (simp add: color_given_5)
  show ?thesis
  proof (cases "too_low number minimum maximum")
    case True
    then show ?thesis
      using gradient_too_low [OF nc True] gradient_too_low [OF no_color_given_empty True]
      by simp
  next
    case False
    with assms(6) have h: "too_high number minimum maximum" by simp
    with False show ?thesis
      using gradient_too_high [OF nc h] gradient_too_high [OF no_color_given_empty h]
      by simp
  qed
qed

theorem gradient_out_of_range_ignores_styles_witness:
  "\<not> is_color ''no such style'' \<and> \<not> is_color ''bold'' \<and> \<not> is_color [] \<and> too_high 150 0 100 \<and>
   \<not> too_low 150 0 100 \<and>
   formatGradientUnsignedInteger 150 0 100 ''no such style'' ''bold'' ''bold'' [] [] =
     formatGradientUnsignedInteger 150 0 100 [] [] [] [] [] \<and>
   formatGradientUnsignedInteger 150 0 100 ''no such style'' ''bold'' ''bold'' [] [] =
     Inr (too_high_rendering 150)"
proof -
  have a: "\<not> is_color ''no such style''" by (simp add: is_color_def colors_def)
  have b: "\<not> is_color ''bold''" by (simp add: is_color_def colors_def)
  have c: "\<not> is_color []" by (rule empty_not_token)
  have h: "too_high 150 0 100" by (simp add: too_high_def)
  have l: "\<not> too_low 150 0 100" by (simp add: too_low_def)
  from h have "too_low 150 0 100 \<or> too_high 150 0 100" by simp
  note inst = gradient_out_of_range_ignores_styles [OF a b b c c this]
  from inst have 1: "formatGradientUnsignedInteger 150 0 100 ''no such style'' ''bold'' ''bold'' [] [] =
      formatGradientUnsignedInteger 150 0 100 [] [] [] [] []"
    by (rule conjunct1)
  from inst have "formatGradientUnsignedInteger 150 0 100 ''no such style'' ''bold'' ''bold'' [] [] =
      Inr (if too_low 150 0 100 then too_low_rendering 150 else too_high_rendering 150)"
    by (rule conjunct2)
  with l have 2: "formatGradientUnsignedInteger 150 0 100 ''no such style'' ''bold'' ''bold'' [] [] =
      Inr (too_high_rendering 150)"
    by simp
  from a b c h l 1 2 show ?thesis by blast
qed

subsection \<open>Stripping what the formatters return\<close>

lemma digit_int_chars:
  assumes "0 \<le> k" and "k < 10"
  shows "char_of (48 + k :: int) \<in> set ''0123456789''"
proof -
  from assms have "k = 0 \<or> k = 1 \<or> k = 2 \<or> k = 3 \<or> k = 4 \<or> k = 5 \<or> k = 6 \<or> k = 7 \<or> k = 8 \<or> k = 9"
    by arith
  moreover have "char_of (48 + 0 :: int) = CHR ''0''" "char_of (48 + 1 :: int) = CHR ''1''"
    "char_of (48 + 2 :: int) = CHR ''2''" "char_of (48 + 3 :: int) = CHR ''3''"
    "char_of (48 + 4 :: int) = CHR ''4''" "char_of (48 + 5 :: int) = CHR ''5''"
    "char_of (48 + 6 :: int) = CHR ''6''" "char_of (48 + 7 :: int) = CHR ''7''"
    "char_of (48 + 8 :: int) = CHR ''8''" "char_of (48 + 9 :: int) = CHR ''9''"
    by code_simp+
  ultimately show ?thesis by auto
qed

lemma decimal_digits_chars: "0 \<le> i \<Longrightarrow> set (decimal_digits i) \<subseteq> set ''0123456789''"
proof (induction i rule: decimal_digits.induct)
  case (1 i)
  show ?case
  proof (cases "i < 10")
    case True
    with "1.prems" have "char_of (48 + i) \<in> set ''0123456789''" by (rule digit_int_chars)
    with True show ?thesis by (subst decimal_digits.simps) simp
  next
    case False
    with "1.prems" have "set (decimal_digits (i div 10)) \<subseteq> set ''0123456789''"
      by (intro "1.IH") simp_all
    moreover have "char_of (48 + i mod 10) \<in> set ''0123456789''"
      by (rule digit_int_chars) simp_all
    ultimately show ?thesis using False by (subst decimal_digits.simps) auto
  qed
qed

lemma decimal_no_m: "CHR ''m'' \<notin> set (decimal i)"
proof (cases "i < 0")
  case True
  then have "set (decimal_digits (- i)) \<subseteq> set ''0123456789''"
    by (intro decimal_digits_chars) simp
  with True show ?thesis by (auto simp: decimal_def)
next
  case False
  then have "set (decimal_digits i) \<subseteq> set ''0123456789''"
    by (intro decimal_digits_chars) simp
  with False show ?thesis by (auto simp: decimal_def)
qed

lemma escape_code_gradient: "escape_code (ESC # ''[38;5;'' @ decimal i @ ''m'')"
  unfolding escape_code_def
  by (rule exI [of _ "''38;5;'' @ decimal i"]) (simp add: decimal_no_m)

lemma removePreviousFormats_gradient:
  assumes "formatGradientUnsignedInteger number minimum maximum t1 t2 t3 t4 t5 = Inr out"
  shows "removePreviousFormats out = grouped_decimal (unat number)"
proof -
  from assms have nc: "\<not> color_given [t1, t2, t3, t4, t5]"
    by (auto simp: formatGradientUnsignedInteger_def split: if_splits)
  consider (low) "too_low number minimum maximum" | (high) "too_high number minimum maximum"
    | (inside) "\<not> too_low number minimum maximum" "\<not> too_high number minimum maximum"
    by blast
  then show ?thesis
  proof cases
    case low
    with nc assms have "out = too_low_rendering number" by (simp add: gradient_too_low)
    then show ?thesis
      using removePreviousFormats_formatUnsignedInteger [OF formatUnsignedInteger_red] by simp
  next
    case high
    with nc assms have "out = too_high_rendering number" by (simp add: gradient_too_high)
    then show ?thesis
      using removePreviousFormats_formatUnsignedInteger [OF formatUnsignedInteger_green] by simp
  next
    case inside
    let ?e = "ESC # ''[38;5;'' @ decimal (gradient_index number minimum maximum) @ ''m''"
    from nc inside assms obtain formatted
      where f: "formatUnsignedInteger number t1 t2 t3 t4 t5 [] = Inr formatted"
        and out: "out = ?e @ formatted @ reset"
      by (auto simp: gradient_in_range split: sum.splits)
    from f have "formatString (grouped_decimal (unat number)) t1 t2 t3 t4 t5 [] = Inr formatted"
      by (simp add: formatUnsignedInteger_def group_digits_grouped_decimal)
    with grouped_decimal_no_marker grouped_decimal_nonempty obtain cs
      where cs: "formatted = concat cs @ grouped_decimal (unat number) @ reset"
        and esc: "\<forall>c\<in>set cs. escape_code c"
      using formatString_shape by blast
    from out cs have "out = concat (?e # cs) @ grouped_decimal (unat number) @ concat [reset, reset]"
      by simp
    moreover from esc have "\<forall>c\<in>set (?e # cs). escape_code c"
      using escape_code_gradient by simp
    moreover have "\<forall>c\<in>set [reset, reset]. escape_code c"
      using escape_code_reset by simp
    ultimately show ?thesis
      using strip_wrapped [OF grouped_decimal_no_marker] by blast
  qed
qed

text \<open>
  C2, as amended. For a payload that holds no start marker \<^verbatim>\<open>"\033["\<close>, stripping what
  \<^verbatim>\<open>formatString\<close> returns gives the payload back; and stripping what
  \<^verbatim>\<open>formatUnsignedInteger\<close> or \<^verbatim>\<open>formatGradientUnsignedInteger\<close> returns gives the grouped
  digit text of the number.
\<close>

theorem strip_round_trip:
  assumes "no_marker str"
  shows "(\<forall>out. formatString str t1 t2 t3 t4 t5 t6 = Inr out \<longrightarrow> removePreviousFormats out = str) \<and>
    (\<forall>out. formatUnsignedInteger number t1 t2 t3 t4 t5 t6 = Inr out \<longrightarrow>
       removePreviousFormats out = grouped_decimal (unat number)) \<and>
    (\<forall>out. formatGradientUnsignedInteger number minimum maximum t1 t2 t3 t4 t5 = Inr out \<longrightarrow>
       removePreviousFormats out = grouped_decimal (unat number))"
proof (intro conjI allI impI)
  fix out
  assume "formatString str t1 t2 t3 t4 t5 t6 = Inr out"
  then show "removePreviousFormats out = str"
    by (rule removePreviousFormats_formatString [OF assms])
next
  fix out
  assume "formatUnsignedInteger number t1 t2 t3 t4 t5 t6 = Inr out"
  then show "removePreviousFormats out = grouped_decimal (unat number)"
    by (rule removePreviousFormats_formatUnsignedInteger)
next
  fix out
  assume "formatGradientUnsignedInteger number minimum maximum t1 t2 t3 t4 t5 = Inr out"
  then show "removePreviousFormats out = grouped_decimal (unat number)"
    by (rule removePreviousFormats_gradient)
qed

theorem strip_round_trip_witness:
  "no_marker ''hello'' \<and>
   formatString ''hello'' ''red'' ''bold'' [] [] [] [] =
     Inr (ESC # ''[31m'' @ ESC # ''[1m'' @ ''hello'' @ ESC # ''[0m'') \<and>
   removePreviousFormats (ESC # ''[31m'' @ ESC # ''[1m'' @ ''hello'' @ ESC # ''[0m'') = ''hello''"
proof -
  have n: "no_marker ''hello''" by (simp add: no_marker_def)
  have f: "formatString ''hello'' ''red'' ''bold'' [] [] [] [] =
     Inr (ESC # ''[31m'' @ ESC # ''[1m'' @ ''hello'' @ ESC # ''[0m'')"
    by code_simp
  from strip_round_trip [OF n, of "''red''" "''bold''" "[]" "[]" "[]" "[]"] f
  have "removePreviousFormats (ESC # ''[31m'' @ ESC # ''[1m'' @ ''hello'' @ ESC # ''[0m'') = ''hello''"
    by blast
  with n f show ?thesis by blast
qed

text \<open>
  C2 as stated fails: a payload that holds an escape sequence comes back without it.
\<close>

theorem strip_round_trip_loses_escapes:
  "formatString (ESC # ''[31mhi'') ''bold'' [] [] [] [] [] = Inr (ESC # ''[1mhi'' @ ESC # ''[0m'') \<and>
   removePreviousFormats (ESC # ''[1mhi'' @ ESC # ''[0m'') = ''hi'' \<and>
   ''hi'' \<noteq> ESC # ''[31mhi''"
  by code_simp

subsection \<open>The shuffle and the character loop of rainbow\<close>

lemma shuffle_invariant:
  "k \<le> 6 \<Longrightarrow>
   (case fold (shuffle_step rand) [0..<k] (palette, replicate 8 []) of
      (cs, randomColors) \<Rightarrow>
        length cs = 6 \<and> length randomColors = 8 \<and>
        mset (take (6 - k) cs) + mset (take k randomColors) = mset palette)"
proof (induction k)
  case 0
  then show ?case by (simp add: palette_def)
next
  case (Suc k)
  obtain cs rc where st: "fold (shuffle_step rand) [0..<k] (palette, replicate 8 []) = (cs, rc)"
    by (cases "fold (shuffle_step rand) [0..<k] (palette, replicate 8 [])")
  with Suc have len: "length cs = 6" "length rc = 8"
    and inv: "mset (take (6 - k) cs) + mset (take k rc) = mset palette"
    by auto
  from Suc.prems have k: "k < 6" by simp
  define ri where "ri = rand k mod (6 - k mod 6)"
  from k have ri: "ri < 6 - k" by (simp add: ri_def)
  let ?w = "cs ! (5 - k)"
  let ?v = "cs ! ri"
  have step: "fold (shuffle_step rand) [0..<Suc k] (palette, replicate 8 []) =
      (cs[ri := ?w], rc[k := ?v])"
    using st by (simp add: shuffle_step_def ri_def Let_def)
  have six: "6 - k = Suc (5 - k)" using k by simp
  have whole: "take (6 - k) cs = take (5 - k) cs @ [?w]"
    unfolding six using len k by (simp add: take_Suc_conv_app_nth)
  have rc': "mset (take (Suc k) (rc[k := ?v])) = mset (take k rc) + {#?v#}"
    using len k by (simp add: take_Suc_conv_app_nth)
  have cs': "mset (take (5 - k) (cs[ri := ?w])) + {#?v#} = mset (take (6 - k) cs)"
  proof (cases "ri = 5 - k")
    case True
    then show ?thesis by (simp add: whole)
  next
    case False
    with ri have lt: "ri < 5 - k" by simp
    with len k have in_take: "ri < length (take (5 - k) cs)" by simp
    have "take (5 - k) (cs[ri := ?w]) = (take (5 - k) cs)[ri := ?w]"
      by (simp add: take_update_swap)
    moreover have "take (5 - k) cs ! ri = ?v" using lt by simp
    moreover from in_take have "take (5 - k) cs ! ri \<in># mset (take (5 - k) cs)"
      using nth_mem_mset by blast
    ultimately show ?thesis
      using in_take by (simp add: mset_update whole)
  qed
  have "6 - Suc k = 5 - k" by simp
  then have "mset (take (6 - Suc k) (cs[ri := ?w])) + mset (take (Suc k) (rc[k := ?v])) =
      mset (take (6 - k) cs) + mset (take k rc)"
    using rc' cs' by (simp add: ac_simps)
  with inv len show ?case unfolding step by simp
qed

lemma shuffle_permutation: "mset (take 6 (shuffle rand)) = mset palette"
  using shuffle_invariant [of 6 rand] by (auto simp: shuffle_def split: prod.splits)

lemma length_shuffle: "length (shuffle rand) = 8"
  using shuffle_invariant [of 6 rand] by (auto simp: shuffle_def split: prod.splits)

lemma distinct_palette: "distinct palette"
  by (simp add: palette_def)

lemma shuffle_distinct: "distinct (take 6 (shuffle rand))"
  using shuffle_permutation [of rand] distinct_palette by (metis mset_eq_imp_distinct_iff)

lemma window_rotate:
  assumes "length xs = 8"
  shows "map (\<lambda>j. xs ! ((k + j) mod 6)) [0..<6] = rotate k (take 6 xs)"
proof (rule nth_equalityI)
  show "length (map (\<lambda>j. xs ! ((k + j) mod 6)) [0..<6]) = length (rotate k (take 6 xs))"
    using assms by simp
next
  fix i
  assume "i < length (map (\<lambda>j. xs ! ((k + j) mod 6)) [0..<6])"
  then have i: "i < 6" by simp
  with assms show "map (\<lambda>j. xs ! ((k + j) mod 6)) [0..<6] ! i = rotate k (take 6 xs) ! i"
    by (simp add: nth_rotate add.commute del: upt_Suc)
qed

lemma window_permutation:
  "mset (map (\<lambda>j. shuffle rand ! ((k + j) mod 6)) [0..<6]) = mset palette"
proof -
  have "mset (rotate k (take 6 (shuffle rand))) = mset (take 6 (shuffle rand))"
    unfolding rotate_drop_take
    by (metis append_take_drop_id mset_append union_commute)
  then show ?thesis
    using window_rotate [OF length_shuffle, of rand k] shuffle_permutation [of rand]
    by simp
qed

lemma rainbow_loop_plain:
  "ESC \<notin> set s \<Longrightarrow> i \<le> length s \<Longrightarrow>
   rainbow_loop randomColors s i rainbowString =
     rainbowString @ concat (map (\<lambda>k. randomColors ! (k mod 6) @ [s ! k]) [i..<length s])"
proof (induction randomColors s i rainbowString rule: rainbow_loop.induct)
  case (1 randomColors s i rainbowString)
  show ?case
  proof (cases "i < length s")
    case False
    with "1.prems" show ?thesis by (subst rainbow_loop.simps) simp
  next
    case True
    then have "s ! i \<in> set s" by simp
    with "1.prems" have plain: "s ! i \<noteq> ESC" by metis
    with True "1.prems" have
      "rainbow_loop randomColors s (i + 1) (rainbowString @ randomColors ! (i mod 6) @ [s ! i]) =
        (rainbowString @ randomColors ! (i mod 6) @ [s ! i]) @
        concat (map (\<lambda>k. randomColors ! (k mod 6) @ [s ! k]) [i + 1..<length s])"
      by (intro "1.IH"(2)) simp_all
    with True plain show ?thesis
      by (subst rainbow_loop.simps) (simp add: upt_conv_Cons)
  qed
qed

lemma rainbow_loop_colorized:
  "ESC \<notin> set s \<Longrightarrow> rainbow_loop randomColors s 0 [] = colorized randomColors s"
  by (simp add: rainbow_loop_plain colorized_def)


text \<open>
  C5. When the stripped text holds no escape character, \<^verbatim>\<open>rainbow\<close> returns the style
  codes, then every character of the stripped text with the color of slot \<open>i mod 6\<close> in
  front of the character at position \<open>i\<close>, then the reset code. Whatever \<^verbatim>\<open>std::rand()\<close>
  returns, the six slots hold the six colors of the palette, each once, and so do the
  colors given to any six characters in a row.
\<close>

theorem rainbow_cycles_permutation:
  assumes "rainbow_arguments [a1, a2, a3, a4, a5] [] [] = Inr (str, fmt)"
    and "str \<noteq> []"
    and "ESC \<notin> set (removePreviousFormats str)"
  shows "rainbow rand a1 a2 a3 a4 a5 =
      Inr (fmt @ colorized (shuffle rand) (removePreviousFormats str) @ reset) \<and>
    mset (take 6 (shuffle rand)) = mset palette \<and>
    distinct (take 6 (shuffle rand)) \<and>
    (\<forall>k. mset (map (\<lambda>j. shuffle rand ! ((k + j) mod 6)) [0..<6]) = mset palette)"
  using assms shuffle_permutation [of rand] shuffle_distinct [of rand] window_permutation [of rand]
  by (simp add: rainbow_def rainbow_loop_colorized)

theorem rainbow_cycles_permutation_witness:
  "rainbow_arguments [''bold'', ''hello world'', [], [], []] [] [] = Inr (''hello world'', ESC # ''[1m'') \<and>
   ''hello world'' \<noteq> [] \<and>
   ESC \<notin> set (removePreviousFormats ''hello world'') \<and>
   rainbow (\<lambda>i. 3 * i + 1) ''bold'' ''hello world'' [] [] [] =
     Inr (ESC # ''[1m'' @ colorized (shuffle (\<lambda>i. 3 * i + 1)) ''hello world'' @ ESC # ''[0m'') \<and>
   mset (take 6 (shuffle (\<lambda>i. 3 * i + 1))) = mset palette"
proof -
  have a: "rainbow_arguments [''bold'', ''hello world'', [], [], []] [] [] =
      Inr (''hello world'', ESC # ''[1m'')"
    by (simp add: styles_def)
  have b: "''hello world'' \<noteq> []" by simp
  have r: "removePreviousFormats ''hello world'' = ''hello world''"
    by (rule removePreviousFormats_no_marker) (simp add: no_marker_def)
  have c: "ESC \<notin> set (removePreviousFormats ''hello world'')" unfolding r by simp
  from rainbow_cycles_permutation [OF a b c, of "\<lambda>i. 3 * i + 1"] a b c
  show ?thesis by (simp add: r reset_def)
qed

end
